theory Spec2Isabelle
  imports Main
begin

section \<open>Strings and characters\<close>

text \<open>
  The sanitizer works on JavaScript strings. A string is modelled as a list of code
  units in the range 0 to 255 (the type \<open>char\<close>); on this range the character
  classes and case mappings below are the ones of ECMAScript.
\<close>

definition code :: "char \<Rightarrow> nat" where
  "code c = of_char c"

text \<open>White space and line terminators: the class \<^verbatim>\<open>\s\<close>, and what \<^verbatim>\<open>trim\<close> strips.\<close>

definition is_space :: "char \<Rightarrow> bool" where
  "is_space c = (let n = code c in (9 \<le> n \<and> n \<le> 13) \<or> n = 32 \<or> n = 160)"

text \<open>The class \<^verbatim>\<open>\w\<close>: letters, digits and the underscore.\<close>

definition is_word :: "char \<Rightarrow> bool" where
  "is_word c = (let n = code c in
     (48 \<le> n \<and> n \<le> 57) \<or> (65 \<le> n \<and> n \<le> 90) \<or> n = 95 \<or> (97 \<le> n \<and> n \<le> 122))"

text \<open>
  \<^verbatim>\<open>String.prototype.toLowerCase\<close>, one code unit at a time. A letter and its
  other case differ by 32.
\<close>

definition lower_char :: "char \<Rightarrow> char" where
  "lower_char c = (let n = code c in
     if (65 \<le> n \<and> n \<le> 90) \<or> (192 \<le> n \<and> n \<le> 222 \<and> n \<noteq> 215)
     then char_of (n + 32) else c)"

definition toLowerCase :: "string \<Rightarrow> string" where
  "toLowerCase s = map lower_char s"

text \<open>
  The canonical form of a character under the \<^verbatim>\<open>i\<close> flag (upper case, when that is
  one code unit): two characters match when their canonical forms are equal.
\<close>

definition canon :: "bool \<Rightarrow> char \<Rightarrow> char" where
  "canon ic c = (let n = code c in
     if ic \<and> ((97 \<le> n \<and> n \<le> 122) \<or> (224 \<le> n \<and> n \<le> 254 \<and> n \<noteq> 247))
     then char_of (n - 32) else c)"

text \<open>\<^verbatim>\<open>String.prototype.trim\<close>.\<close>

definition trim :: "string \<Rightarrow> string" where
  "trim s = rev (dropWhile is_space (rev (dropWhile is_space s)))"

subsection \<open>Evaluating the character classes\<close>

text \<open>
  The classes and case mappings above are stated on character codes. To evaluate them on
  a given character it is quicker to compare the bits of the characters: the equations
  below say the same and are the ones used for evaluation.
\<close>

lemma code_inj: "code c = code d \<Longrightarrow> c = d"
  by (simp add: code_def)

fun less_bits :: "bool list \<Rightarrow> bool list \<Rightarrow> bool" where
  "less_bits (a # as) (b # bs) = (less_bits as bs \<or> (as = bs \<and> \<not> a \<and> b))"
| "less_bits as bs = False"

lemma horner_sum_less_bits:
  "length xs = length ys \<Longrightarrow>
     ((horner_sum of_bool 2 xs :: nat) < horner_sum of_bool 2 ys) = less_bits xs ys
     \<and> ((horner_sum of_bool 2 xs :: nat) = horner_sum of_bool 2 ys) = (xs = ys)"
proof (induction xs ys rule: list_induct2)
  case Nil
  then show ?case by simp
next
  case (Cons x xs y ys)
  define A :: nat where "A = horner_sum of_bool 2 xs"
  define B :: nat where "B = horner_sum of_bool 2 ys"
  from Cons.IH have lt: "(A < B) = less_bits xs ys" and eq: "(A = B) = (xs = ys)"
    by (simp_all add: A_def B_def)
  have 1: "(of_bool x + 2 * A < of_bool y + 2 * B) = (A < B \<or> (A = B \<and> \<not> x \<and> y))"
    by (cases x; cases y) (simp_all, arith+)
  have 2: "(of_bool x + 2 * A = of_bool y + 2 * B) = (A = B \<and> x = y)"
    by (cases x; cases y) (simp_all, arith+)
  have "horner_sum of_bool 2 (x # xs) = of_bool x + 2 * A"
    and "horner_sum of_bool 2 (y # ys) = of_bool y + 2 * B"
    by (simp_all add: A_def B_def)
  then show ?case
    using 1 2 lt eq by (simp only: less_bits.simps list.inject) blast
qed

definition bits_of :: "char \<Rightarrow> bool list" where
  "bits_of c = (case c of Char b0 b1 b2 b3 b4 b5 b6 b7 \<Rightarrow> [b0, b1, b2, b3, b4, b5, b6, b7])"

definition char_less :: "char \<Rightarrow> char \<Rightarrow> bool" where
  "char_less c d = less_bits (bits_of c) (bits_of d)"

lemma code_bits: "code c = horner_sum of_bool 2 (bits_of c)"
  by (cases c) (simp add: code_def bits_of_def)

lemma length_bits_of: "length (bits_of c) = 8"
  by (cases c) (simp add: bits_of_def)

lemma char_less_iff: "char_less c d = (code c < code d)"
  using horner_sum_less_bits [of "bits_of c" "bits_of d"]
  by (simp add: char_less_def code_bits length_bits_of)

definition between :: "char \<Rightarrow> char \<Rightarrow> char \<Rightarrow> bool" where
  "between lo c hi = (\<not> char_less c lo \<and> \<not> char_less hi c)"

lemma between_iff: "between lo c hi = (code lo \<le> code c \<and> code c \<le> code hi)"
  by (auto simp: between_def char_less_iff)

lemma is_space_fast [code]:
  "is_space c = (between (CHR 0x09) c (CHR 0x0D) \<or> c = CHR 0x20 \<or> c = CHR 0xA0)"
proof -
  have "(c = CHR 0x20) = (code c = 32)" "(c = CHR 0xA0) = (code c = 160)"
    using code_inj [of c "CHR 0x20"] code_inj [of c "CHR 0xA0"] by (auto simp: code_def)
  then show ?thesis
    by (simp add: is_space_def Let_def between_iff) (simp add: code_def)
qed


lemma code_numeral_chars:
  "code CHR ''0'' = 48" "code CHR ''9'' = 57" "code CHR ''A'' = 65" "code CHR ''Z'' = 90"
  "code CHR ''_'' = 95" "code CHR ''a'' = 97" "code CHR ''z'' = 122"
  "code (CHR 0xC0) = 192" "code (CHR 0xDE) = 222" "code (CHR 0xD7) = 215"
  "code (CHR 0xE0) = 224" "code (CHR 0xFE) = 254" "code (CHR 0xF7) = 247"
  "code (CHR 0x09) = 9" "code (CHR 0x0D) = 13" "code (CHR 0x20) = 32" "code (CHR 0xA0) = 160"
  by (simp_all add: code_def)

lemma char_eq_code: "(c = d) = (code c = code d)"
  using code_inj [of c d] by auto

lemma is_word_fast [code]:
  "is_word c = (between CHR ''0'' c CHR ''9'' \<or> between CHR ''A'' c CHR ''Z'' \<or> c = CHR ''_''
     \<or> between CHR ''a'' c CHR ''z'')"
  by (simp add: is_word_def Let_def between_iff char_eq_code [of c] code_numeral_chars)

definition swap_case :: "bool \<Rightarrow> char \<Rightarrow> char" where
  "swap_case lower c = (case c of Char b0 b1 b2 b3 b4 b5 b6 b7 \<Rightarrow> Char b0 b1 b2 b3 b4 lower b6 b7)"

lemma code_swap_case:
  "code (Char b0 b1 b2 b3 b4 True b6 b7) = code (Char b0 b1 b2 b3 b4 False b6 b7) + 32"
  by (simp add: code_def)

lemma upper_of_lower:
  assumes "(97 \<le> code c \<and> code c \<le> 122) \<or> (224 \<le> code c \<and> code c \<le> 254)"
  shows "char_of (code c - 32) = swap_case False c"
proof (cases c)
  case (Char b0 b1 b2 b3 b4 b5 b6 b7)
  have "b5"
  proof (rule ccontr)
    assume "\<not> b5"
    with assms Char show False
      by (cases b6; cases b7; cases b4; cases b3; cases b2; cases b1; cases b0)
        (simp_all add: code_def)
  qed
  with Char have "code c - 32 = code (Char b0 b1 b2 b3 b4 False b6 b7)"
    by (simp add: code_swap_case)
  then have "char_of (code c - 32) = char_of (of_char (Char b0 b1 b2 b3 b4 False b6 b7) :: nat)"
    by (simp only: code_def)
  then have "char_of (code c - 32) = Char b0 b1 b2 b3 b4 False b6 b7"
    by (simp only: char_of_char)
  with Char show ?thesis by (simp add: swap_case_def)
qed

lemma lower_of_upper:
  assumes "(65 \<le> code c \<and> code c \<le> 90) \<or> (192 \<le> code c \<and> code c \<le> 222)"
  shows "char_of (code c + 32) = swap_case True c"
proof (cases c)
  case (Char b0 b1 b2 b3 b4 b5 b6 b7)
  have "\<not> b5"
  proof
    assume "b5"
    with assms Char show False
      by (cases b6; cases b7; cases b4; cases b3; cases b2; cases b1; cases b0)
        (simp_all add: code_def)
  qed
  with Char have "code c + 32 = code (Char b0 b1 b2 b3 b4 True b6 b7)"
    by (simp add: code_swap_case)
  then have "char_of (code c + 32) = char_of (of_char (Char b0 b1 b2 b3 b4 True b6 b7) :: nat)"
    by (simp only: code_def)
  then have "char_of (code c + 32) = Char b0 b1 b2 b3 b4 True b6 b7"
    by (simp only: char_of_char)
  with Char show ?thesis by (simp add: swap_case_def)
qed

lemma canon_fast [code]:
  "canon ic c =
     (if ic \<and> (between CHR ''a'' c CHR ''z''
                \<or> (between (CHR 0xE0) c (CHR 0xFE) \<and> c \<noteq> CHR 0xF7))
      then swap_case False c else c)"
  using upper_of_lower [of c]
  by (auto simp: canon_def Let_def between_iff char_eq_code [of c] code_numeral_chars)

lemma lower_char_fast [code]:
  "lower_char c =
     (if between CHR ''A'' c CHR ''Z'' \<or> (between (CHR 0xC0) c (CHR 0xDE) \<and> c \<noteq> CHR 0xD7)
      then swap_case True c else c)"
  using lower_of_upper [of c]
  by (auto simp: lower_char_def Let_def between_iff char_eq_code [of c] code_numeral_chars)

section \<open>Regular expressions\<close>

text \<open>
  The patterns of the source are sequences of the atoms below. Matching is by
  backtracking: every atom yields its possible matches in the order in which the
  ECMAScript matcher tries them (greedy quantifiers longest first, lazy ones shortest
  first), and a match of the pattern is the first success of the sequence.

  A match state is the text consumed so far (reversed), the text still to read, and the
  captures of the groups closed so far.
\<close>

datatype cclass = Space | Word | Any | OneOf string | Except string

fun in_class :: "bool \<Rightarrow> cclass \<Rightarrow> char \<Rightarrow> bool" where
  "in_class ic Space c = is_space c"
| "in_class ic Word c = is_word c"
| "in_class ic Any c = True"
| "in_class ic (OneOf cs) c = (canon ic c \<in> set (map (canon ic) cs))"
| "in_class ic (Except cs) c = (canon ic c \<notin> set (map (canon ic) cs))"

datatype atom =
    Lit string
  | Alt "string list"
  | One cclass
  | Star cclass
  | Plus cclass
  | Lazy cclass
  | Opt char
  | WordB
  | Group atom
  | BackRef nat

type_synonym regex = "atom list"
type_synonym mstate = "string \<times> string \<times> string list"

text \<open>
  A literal read at the head of the text, character by character: what is left of the
  text, or \<open>None\<close>.
\<close>

fun lit_rest :: "bool \<Rightarrow> string \<Rightarrow> string \<Rightarrow> string option" where
  "lit_rest ic [] rest = Some rest"
| "lit_rest ic (p # ps) [] = None"
| "lit_rest ic (p # ps) (c # cs) = (if canon ic c = canon ic p then lit_rest ic ps cs else None)"

definition lit :: "bool \<Rightarrow> string \<Rightarrow> mstate \<Rightarrow> mstate list" where
  "lit ic l s = (case s of (acc, rest, caps) \<Rightarrow>
     (case lit_rest ic l rest of
        None \<Rightarrow> []
      | Some rest' \<Rightarrow> [(rev (take (length l) rest) @ acc, rest', caps)]))"

fun star :: "bool \<Rightarrow> cclass \<Rightarrow> string \<Rightarrow> string \<Rightarrow> string list \<Rightarrow> mstate list" where
  "star ic k acc [] caps = [(acc, [], caps)]"
| "star ic k acc (c # cs) caps =
     (if in_class ic k c then star ic k (c # acc) cs caps else []) @ [(acc, c # cs, caps)]"

fun lazy :: "bool \<Rightarrow> cclass \<Rightarrow> string \<Rightarrow> string \<Rightarrow> string list \<Rightarrow> mstate list" where
  "lazy ic k acc [] caps = [(acc, [], caps)]"
| "lazy ic k acc (c # cs) caps =
     (acc, c # cs, caps) # (if in_class ic k c then lazy ic k (c # acc) cs caps else [])"

definition at_boundary :: "char option \<Rightarrow> string \<Rightarrow> string \<Rightarrow> bool" where
  "at_boundary prv acc rest =
     (let a = (case acc of c # _ \<Rightarrow> is_word c
                 | [] \<Rightarrow> (case prv of Some c \<Rightarrow> is_word c | None \<Rightarrow> False));
          b = (case rest of c # _ \<Rightarrow> is_word c | [] \<Rightarrow> False)
      in a \<noteq> b)"

fun m_atom :: "bool \<Rightarrow> char option \<Rightarrow> atom \<Rightarrow> mstate \<Rightarrow> mstate list" where
  "m_atom ic prv (Lit l) s = lit ic l s"
| "m_atom ic prv (Alt ls) s = concat (map (\<lambda>l. lit ic l s) ls)"
| "m_atom ic prv (One k) (acc, rest, caps) =
     (case rest of [] \<Rightarrow> []
      | c # cs \<Rightarrow> if in_class ic k c then [(c # acc, cs, caps)] else [])"
| "m_atom ic prv (Star k) (acc, rest, caps) = star ic k acc rest caps"
| "m_atom ic prv (Plus k) (acc, rest, caps) =
     (case rest of [] \<Rightarrow> []
      | c # cs \<Rightarrow> if in_class ic k c then star ic k (c # acc) cs caps else [])"
| "m_atom ic prv (Lazy k) (acc, rest, caps) = lazy ic k acc rest caps"
| "m_atom ic prv (Opt ch) (acc, rest, caps) =
     (case rest of [] \<Rightarrow> []
      | c # cs \<Rightarrow> if canon ic c = canon ic ch then [(c # acc, cs, caps)] else [])
     @ [(acc, rest, caps)]"
| "m_atom ic prv WordB (acc, rest, caps) =
     (if at_boundary prv acc rest then [(acc, rest, caps)] else [])"
| "m_atom ic prv (Group a) (acc, rest, caps) =
     map (\<lambda>(acc', rest', caps').
            (acc', rest', caps' @ [rev (take (length acc' - length acc) acc')]))
         (m_atom ic prv a (acc, rest, caps))"
| "m_atom ic prv (BackRef n) (acc, rest, caps) =
     (if 0 < n \<and> n \<le> length caps then lit ic (caps ! (n - 1)) (acc, rest, caps)
      else [(acc, rest, caps)])"

fun m_seq :: "bool \<Rightarrow> char option \<Rightarrow> regex \<Rightarrow> mstate \<Rightarrow> mstate list" where
  "m_seq ic prv [] s = [s]"
| "m_seq ic prv (a # as) s = concat (map (m_seq ic prv as) (m_atom ic prv a s))"

text \<open>
  A match of the pattern at the head of \<open>s\<close>: the text matched, the text after it, and the
  captures. \<open>prv\<close> is the character in front of \<open>s\<close>, which \<^verbatim>\<open>\b\<close> looks at.
\<close>

definition exec_at :: "bool \<Rightarrow> regex \<Rightarrow> char option \<Rightarrow> string \<Rightarrow> (string \<times> string \<times> string list) option" where
  "exec_at ic re prv s =
     (case m_seq ic prv re ([], s, []) of
        [] \<Rightarrow> None
      | (acc, rest, caps) # _ \<Rightarrow> Some (rev acc, rest, caps))"

section \<open>\<^verbatim>\<open>String.prototype.replace\<close> with a global pattern\<close>

text \<open>
  A match only reads on: what it has consumed, \<open>x\<close>, is put in front of the text
  consumed before, and is the head of the text that was to be read.
\<close>

lemma lit_rest_Some:
  "lit_rest ic l rest = Some rest' \<Longrightarrow>
     rest = take (length l) rest @ rest'
     \<and> map (canon ic) (take (length l) rest) = map (canon ic) l"
  by (induction ic l rest rule: lit_rest.induct) (auto split: if_splits)

lemma lit_ext:
  "(acc', rest', caps') \<in> set (lit ic l (acc, rest, caps)) \<Longrightarrow>
     \<exists>x. acc' = rev x @ acc \<and> rest = x @ rest' \<and> map (canon ic) x = map (canon ic) l"
proof -
  assume "(acc', rest', caps') \<in> set (lit ic l (acc, rest, caps))"
  then have "acc' = rev (take (length l) rest) @ acc" and "lit_rest ic l rest = Some rest'"
    by (auto simp: lit_def split: option.splits)
  with lit_rest_Some [of ic l rest rest']
  have "acc' = rev (take (length l) rest) @ acc \<and> rest = take (length l) rest @ rest'
    \<and> map (canon ic) (take (length l) rest) = map (canon ic) l"
    by simp
  then show ?thesis by blast
qed

lemma star_ext:
  "(acc', rest', caps') \<in> set (star ic k acc rest caps) \<Longrightarrow>
     \<exists>x. acc' = rev x @ acc \<and> rest = x @ rest'"
proof (induction ic k acc rest caps rule: star.induct)
  case (1 ic k acc caps)
  then show ?case by simp
next
  case (2 ic k acc c cs caps)
  from "2.prems" consider
    (more) "in_class ic k c" "(acc', rest', caps') \<in> set (star ic k (c # acc) cs caps)"
    | (stop) "acc' = acc" "rest' = c # cs"
    by (auto split: if_splits)
  then show ?case
  proof cases
    case more
    with "2.IH" obtain x where "acc' = rev x @ c # acc" and "cs = x @ rest'" by blast
    then have "acc' = rev (c # x) @ acc \<and> c # cs = (c # x) @ rest'" by simp
    then show ?thesis by blast
  next
    case stop
    then show ?thesis by simp
  qed
qed

lemma lazy_ext:
  "(acc', rest', caps') \<in> set (lazy ic k acc rest caps) \<Longrightarrow>
     \<exists>x. acc' = rev x @ acc \<and> rest = x @ rest'"
proof (induction ic k acc rest caps rule: lazy.induct)
  case (1 ic k acc caps)
  then show ?case by simp
next
  case (2 ic k acc c cs caps)
  from "2.prems" consider
    (more) "in_class ic k c" "(acc', rest', caps') \<in> set (lazy ic k (c # acc) cs caps)"
    | (stop) "acc' = acc" "rest' = c # cs"
    by (auto split: if_splits)
  then show ?case
  proof cases
    case more
    with "2.IH" obtain x where "acc' = rev x @ c # acc" and "cs = x @ rest'" by blast
    then have "acc' = rev (c # x) @ acc \<and> c # cs = (c # x) @ rest'" by simp
    then show ?thesis by blast
  next
    case stop
    then show ?thesis by simp
  qed
qed

lemma step_ext: "\<exists>x. c # acc = rev x @ acc \<and> c # cs = x @ cs"
proof -
  have "c # acc = rev [c] @ acc \<and> c # cs = [c] @ cs" by simp
  then show ?thesis by blast
qed

lemma after_step_ext:
  assumes "\<exists>x. acc' = rev x @ c # acc \<and> cs = x @ rest'"
  shows "\<exists>x. acc' = rev x @ acc \<and> c # cs = x @ rest'"
proof -
  from assms obtain x where "acc' = rev x @ c # acc" and "cs = x @ rest'" by blast
  then have "acc' = rev (c # x) @ acc \<and> c # cs = (c # x) @ rest'" by simp
  then show ?thesis by blast
qed

lemma m_atom_ext:
  "(acc', rest', caps') \<in> set (m_atom ic prv a (acc, rest, caps)) \<Longrightarrow>
     \<exists>x. acc' = rev x @ acc \<and> rest = x @ rest'"
proof (induction a arbitrary: acc' rest' caps')
  case (Lit l)
  then show ?case using lit_ext by fastforce
next
  case (Alt ls)
  then obtain l where "(acc', rest', caps') \<in> set (lit ic l (acc, rest, caps))" by auto
  then show ?case using lit_ext by fastforce
next
  case (One k)
  then show ?case by (cases rest) (auto split: if_splits intro: step_ext)
next
  case (Star k)
  then show ?case using star_ext by simp
next
  case (Plus k)
  then show ?case
    by (cases rest) (auto split: if_splits dest!: star_ext intro: after_step_ext)
next
  case (Lazy k)
  then show ?case using lazy_ext by simp
next
  case (Opt ch)
  then show ?case by (cases rest) (auto split: if_splits intro: step_ext)
next
  case WordB
  then show ?case by (auto split: if_splits)
next
  case (Group a)
  then show ?case by auto
next
  case (BackRef n)
  then show ?case
  proof (cases "0 < n \<and> n \<le> length caps")
    case True
    with BackRef have "(acc', rest', caps') \<in> set (lit ic (caps ! (n - 1)) (acc, rest, caps))"
      by simp
    then show ?thesis using lit_ext by fastforce
  next
    case False
    with BackRef show ?thesis by auto
  qed
qed

lemma m_seq_ext:
  "(acc', rest', caps') \<in> set (m_seq ic prv re (acc, rest, caps)) \<Longrightarrow>
     \<exists>x. acc' = rev x @ acc \<and> rest = x @ rest'"
proof (induction re arbitrary: acc rest caps)
  case Nil
  then show ?case by simp
next
  case (Cons a re)
  from Cons.prems obtain acc1 rest1 caps1 where
    m1: "(acc1, rest1, caps1) \<in> set (m_atom ic prv a (acc, rest, caps))" and
    m2: "(acc', rest', caps') \<in> set (m_seq ic prv re (acc1, rest1, caps1))"
    by auto
  from m_atom_ext [OF m1] obtain x where x: "acc1 = rev x @ acc" "rest = x @ rest1" by blast
  from Cons.IH [OF m2] obtain y where y: "acc' = rev y @ acc1" "rest1 = y @ rest'" by blast
  from x y have "acc' = rev (x @ y) @ acc \<and> rest = (x @ y) @ rest'" by simp
  then show ?case by blast
qed

lemma exec_at_mem:
  assumes "exec_at ic re prv s = Some (m, rest, caps)"
  shows "(rev m, rest, caps) \<in> set (m_seq ic prv re ([], s, []))"
proof -
  from assms obtain acc xs where
    "m_seq ic prv re ([], s, []) = (acc, rest, caps) # xs" and "m = rev acc"
    by (auto simp: exec_at_def split: list.splits)
  then show ?thesis by simp
qed

lemma exec_at_append:
  assumes "exec_at ic re prv s = Some (m, rest, caps)"
  shows "s = m @ rest"
proof -
  from m_seq_ext [OF exec_at_mem [OF assms]] obtain x where "rev m = rev x @ []" and "s = x @ rest"
    by blast
  then show ?thesis by simp
qed

lemma exec_at_shorter:
  "exec_at ic re prv s = Some (m, rest, caps) \<Longrightarrow> m \<noteq> [] \<Longrightarrow> length rest < length s"
  using exec_at_append [of ic re prv s m rest caps] by (cases m) auto

text \<open>
  \<^verbatim>\<open>s.replace(re, f)\<close> for a pattern with the \<^verbatim>\<open>g\<close> flag: the matches are looked for
  from left to right in the original string, each search starting where the last match
  ended (one character further after an empty match), and every match is replaced by
  what \<open>f\<close> returns for the matched text and its captures.
\<close>

function replace_all ::
  "bool \<Rightarrow> regex \<Rightarrow> (string \<Rightarrow> string list \<Rightarrow> string) \<Rightarrow> char option \<Rightarrow> string \<Rightarrow> string" where
  "replace_all ic re f prv s =
     (case exec_at ic re prv s of
        None \<Rightarrow> (case s of [] \<Rightarrow> [] | c # cs \<Rightarrow> c # replace_all ic re f (Some c) cs)
      | Some (m, rest, caps) \<Rightarrow>
          if m = [] then
            f m caps @ (case s of [] \<Rightarrow> [] | c # cs \<Rightarrow> c # replace_all ic re f (Some c) cs)
          else f m caps @ replace_all ic re f (Some (last m)) rest)"
  by pat_completeness auto
termination
  by (relation "measure (\<lambda>(ic, re, f, prv, s). length s)") (auto intro: exec_at_shorter)

declare replace_all.simps [simp del]

definition remove_all :: "bool \<Rightarrow> regex \<Rightarrow> string \<Rightarrow> string" where
  "remove_all ic re s = replace_all ic re (\<lambda>m caps. []) None s"


text \<open>
  The search of \<^verbatim>\<open>RegExp.prototype.exec\<close>: the leftmost match at or after position
  \<open>pos\<close>, where \<open>s\<close> is the text from \<open>pos\<close> on. The result is the position where
  the match ends, the matched text and the captures.
\<close>

fun find_match ::
  "bool \<Rightarrow> regex \<Rightarrow> char option \<Rightarrow> string \<Rightarrow> nat \<Rightarrow> (nat \<times> string \<times> string list) option" where
  "find_match ic re prv [] pos =
     (case exec_at ic re prv [] of
        None \<Rightarrow> None
      | Some (m, rest, caps) \<Rightarrow> Some (pos + length m, m, caps))"
| "find_match ic re prv (c # cs) pos =
     (case exec_at ic re prv (c # cs) of
        None \<Rightarrow> find_match ic re (Some c) cs (Suc pos)
      | Some (m, rest, caps) \<Rightarrow> Some (pos + length m, m, caps))"

text \<open>
  \<^verbatim>\<open>re.test(s)\<close> for a pattern with the \<^verbatim>\<open>g\<close> flag. The pattern object keeps
  \<^verbatim>\<open>lastIndex\<close> between calls: the search starts there, a match moves it to the end
  of the match, and a failure resets it to 0. The result is the answer and the new
  \<^verbatim>\<open>lastIndex\<close>.
\<close>

definition regex_test :: "bool \<Rightarrow> regex \<Rightarrow> string \<Rightarrow> nat \<Rightarrow> bool \<times> nat" where
  "regex_test ic re s lastIndex =
     (if length s < lastIndex then (False, 0)
      else case find_match ic re (if lastIndex = 0 then None else Some (s ! (lastIndex - 1)))
                  (drop lastIndex s) lastIndex of
             None \<Rightarrow> (False, 0)
           | Some (e, m, caps) \<Rightarrow> (True, e))"

section \<open>Values and errors of the host language\<close>

text \<open>
  The functions are typed for strings, but the source guards against other values at
  run time, so an argument is a JavaScript value. An exception is a value of the result.
\<close>

datatype js_value = JUndefined | JNull | JBoolean bool | JNumber int | JString string | JObject

datatype js_error = TypeError | SyntaxError

fun truthy :: "js_value \<Rightarrow> bool" where
  "truthy JUndefined = False"
| "truthy JNull = False"
| "truthy (JBoolean b) = b"
| "truthy (JNumber n) = (n \<noteq> 0)"
| "truthy (JString s) = (s \<noteq> [])"
| "truthy JObject = True"

fun is_string :: "js_value \<Rightarrow> bool" where
  "is_string (JString s) = True"
| "is_string v = False"

section \<open>The configuration\<close>

text \<open>
  \<^verbatim>\<open>interface SanitizerConfig\<close>: every field is optional, \<open>None\<close> is a field that is
  not there.
\<close>

record SanitizerConfig =
  elements :: "string list option"
  removeElements :: "string list option"
  allowedElements :: "string list option"
  disallowedElements :: "string list option"
  allowedAttributes :: "string list option"
  disallowedAttributes :: "string list option"
  allowedProtocols :: "string list option"
  allowDataUrls :: "bool option"
  stripComments :: "bool option"
  stripDoctype :: "bool option"

definition DEFAULT_SANITIZER_CONFIG :: SanitizerConfig where
  "DEFAULT_SANITIZER_CONFIG = \<lparr>
     elements = Some [''p'', ''br'', ''strong'', ''em'', ''u'', ''b'', ''i'', ''span'', ''div'',
       ''h1'', ''h2'', ''h3'', ''h4'', ''h5'', ''h6'', ''ul'', ''ol'', ''li'', ''blockquote'',
       ''pre'', ''code'', ''a'', ''img'', ''table'', ''thead'', ''tbody'', ''tr'', ''th'', ''td''],
     removeElements = Some [''script'', ''style'', ''iframe'', ''object'', ''embed'', ''form'',
       ''input'', ''textarea'', ''button'', ''select'', ''option''],
     allowedElements = Some [''p'', ''br'', ''strong'', ''em'', ''u'', ''b'', ''i'', ''span'', ''div'',
       ''h1'', ''h2'', ''h3'', ''h4'', ''h5'', ''h6'', ''ul'', ''ol'', ''li'', ''blockquote'',
       ''pre'', ''code'', ''a'', ''img'', ''table'', ''thead'', ''tbody'', ''tr'', ''th'', ''td''],
     disallowedElements = Some [''script'', ''style'', ''iframe'', ''object'', ''embed'', ''form'',
       ''input'', ''textarea'', ''button'', ''select'', ''option''],
     allowedAttributes = Some [''href'', ''src'', ''alt'', ''title'', ''class'', ''id'', ''style'',
       ''width'', ''height'', ''colspan'', ''rowspan'', ''target''],
     disallowedAttributes = Some [''onclick'', ''onload'', ''onerror'', ''onmouseover'',
       ''onmouseout'', ''onfocus'', ''onblur'', ''onchange'', ''onsubmit''],
     allowedProtocols = Some [''http:'', ''https:'', ''mailto:'', ''tel:''],
     allowDataUrls = Some False,
     stripComments = Some True,
     stripDoctype = Some True \<rparr>"

text \<open>The object spread \<^verbatim>\<open>{ ...a, ...b }\<close>: a field of \<open>b\<close> that is there wins.\<close>

definition or_else :: "'a option \<Rightarrow> 'a option \<Rightarrow> 'a option" where
  "or_else y x = (case y of None \<Rightarrow> x | Some v \<Rightarrow> Some v)"

definition spread :: "SanitizerConfig \<Rightarrow> SanitizerConfig \<Rightarrow> SanitizerConfig" where
  "spread a b = \<lparr>
     elements = or_else (elements b) (elements a),
     removeElements = or_else (removeElements b) (removeElements a),
     allowedElements = or_else (allowedElements b) (allowedElements a),
     disallowedElements = or_else (disallowedElements b) (disallowedElements a),
     allowedAttributes = or_else (allowedAttributes b) (allowedAttributes a),
     disallowedAttributes = or_else (disallowedAttributes b) (disallowedAttributes a),
     allowedProtocols = or_else (allowedProtocols b) (allowedProtocols a),
     allowDataUrls = or_else (allowDataUrls b) (allowDataUrls a),
     stripComments = or_else (stripComments b) (stripComments a),
     stripDoctype = or_else (stripDoctype b) (stripDoctype a) \<rparr>"

text \<open>\<^verbatim>\<open>Sanitizer.normalizeConfig\<close>. An array is truthy, also when it is empty.\<close>

definition normalizeConfig :: "SanitizerConfig \<Rightarrow> SanitizerConfig" where
  "normalizeConfig c =
     (let c1 = (case elements c of
                  Some e \<Rightarrow> c\<lparr>allowedElements := Some e\<rparr>
                | None \<Rightarrow> c);
          c2 = (case removeElements c1 of
                  Some r \<Rightarrow> c1\<lparr>disallowedElements := Some r\<rparr>
                | None \<Rightarrow> c1)
      in c2)"

text \<open>
  The constructor of \<^verbatim>\<open>class Sanitizer\<close>. An instance holds nothing but its
  configuration, so the instance is modelled as the configuration it ends up with. The
  argument \<open>None\<close> is the call without argument, for which the parameter defaults to
  \<^verbatim>\<open>DEFAULT_SANITIZER_CONFIG\<close>.
\<close>

definition new_Sanitizer :: "SanitizerConfig option \<Rightarrow> SanitizerConfig" where
  "new_Sanitizer arg =
     (let config = (case arg of None \<Rightarrow> DEFAULT_SANITIZER_CONFIG | Some c \<Rightarrow> c);
          this0 = normalizeConfig DEFAULT_SANITIZER_CONFIG;
          userDisallowedElements = disallowedElements config;
          userRemoveElements = removeElements config;
          this1 = spread this0 config;
          this2 = (case userDisallowedElements of
                     Some d \<Rightarrow> this1\<lparr>disallowedElements := Some d\<rparr>
                   | None \<Rightarrow> this1);
          this3 = (case userRemoveElements of
                     Some r \<Rightarrow> this2\<lparr>disallowedElements := Some r\<rparr>
                   | None \<Rightarrow> this2)
      in this3)"

section \<open>The patterns of the sanitizer\<close>

text \<open>
  The patterns written as literals in the source are given as they are. The patterns that
  the source builds with \<^verbatim>\<open>new RegExp\<close> hold a name of the configuration, which is put
  into the text of the pattern as it is. For a name without a syntax character of the
  pattern language the pattern reads the name as a literal, and that pattern is given
  here, next to the text that the source builds. What the constructor makes of another
  name is not decided here: see \<open>Platform\<close> below.
\<close>

text \<open>The syntax characters \<^verbatim>\<open>^ $ \ . * + ? ( ) [ ] { } |\<close>.\<close>

definition syntax_chars :: string where
  "syntax_chars = [CHR ''^'', CHR ''$'', CHR 0x5C, CHR ''.'', CHR ''*'', CHR ''+'', CHR ''?'',
     CHR ''('', CHR '')'', CHR ''['', CHR '']'', CHR ''{'', CHR ''}'', CHR ''|'']"

definition plain_name :: "string \<Rightarrow> bool" where
  "plain_name name = list_all (\<lambda>c. c \<notin> set syntax_chars) name"

text \<open>\<^verbatim>\<open>/<!DOCTYPE[^>]*>/gi\<close>\<close>

definition doctypeRegex :: regex where
  "doctypeRegex = [Lit ''<!DOCTYPE'', Star (Except ''>''), Lit ''>'']"

text \<open>\<^verbatim>\<open>/<!--[\s\S]*?-->/g\<close>\<close>

definition commentRegex :: regex where
  "commentRegex = [Lit ''<!--'', Lazy Any, Lit ''-->'']"

text \<open>\<^verbatim>\<open><${tag}\b[^>]*>[\s\S]*?<\/${tag}>\<close>, flags \<^verbatim>\<open>gi\<close>\<close>

definition elementSource :: "string \<Rightarrow> string" where
  "elementSource tag =
     ''<'' @ tag @ [CHR 0x5C] @ ''b[^>]*>['' @ [CHR 0x5C] @ ''s'' @ [CHR 0x5C] @ ''S]*?<''
     @ [CHR 0x5C] @ ''/'' @ tag @ ''>''"

definition elementRegex :: "string \<Rightarrow> regex" where
  "elementRegex tag =
     [Lit ''<'', Lit tag, WordB, Star (Except ''>''), Lit ''>'', Lazy Any, Lit ''</'', Lit tag, Lit ''>'']"

text \<open>\<^verbatim>\<open><${tag}\b[^>]*\/?>\<close>, flags \<^verbatim>\<open>gi\<close>\<close>

definition selfClosingSource :: "string \<Rightarrow> string" where
  "selfClosingSource tag = ''<'' @ tag @ [CHR 0x5C] @ ''b[^>]*'' @ [CHR 0x5C] @ ''/?>''"

definition selfClosingRegex :: "string \<Rightarrow> regex" where
  "selfClosingRegex tag = [Lit ''<'', Lit tag, WordB, Star (Except ''>''), Opt CHR ''/'', Lit ''>'']"

text \<open>\<^verbatim>\<open>\s+${attr}\s*=\s*'[^']*'\<close>, flags \<^verbatim>\<open>gi\<close>\<close>

definition singleQuoteSource :: "string \<Rightarrow> string" where
  "singleQuoteSource attr =
     [CHR 0x5C] @ ''s+'' @ attr @ [CHR 0x5C] @ ''s*='' @ [CHR 0x5C] @ ''s*''
     @ [CHR 0x27] @ ''[^'' @ [CHR 0x27] @ '']*'' @ [CHR 0x27]"

definition singleQuoteRegex :: "string \<Rightarrow> regex" where
  "singleQuoteRegex attr =
     [Plus Space, Lit attr, Star Space, Lit ''='', Star Space,
      Lit [CHR 0x27], Star (Except [CHR 0x27]), Lit [CHR 0x27]]"

text \<open>\<^verbatim>\<open>\s+${attr}\s*=\s*"[^"]*"\<close>, flags \<^verbatim>\<open>gi\<close>\<close>

definition doubleQuoteSource :: "string \<Rightarrow> string" where
  "doubleQuoteSource attr =
     [CHR 0x5C] @ ''s+'' @ attr @ [CHR 0x5C] @ ''s*='' @ [CHR 0x5C] @ ''s*''
     @ [CHR 0x22] @ ''[^'' @ [CHR 0x22] @ '']*'' @ [CHR 0x22]"

definition doubleQuoteRegex :: "string \<Rightarrow> regex" where
  "doubleQuoteRegex attr =
     [Plus Space, Lit attr, Star Space, Lit ''='', Star Space,
      Lit [CHR 0x22], Star (Except [CHR 0x22]), Lit [CHR 0x22]]"

text \<open>\<^verbatim>\<open>/(href|src)\s*=\s*'([^']+)'/gi\<close> and the same with double quotes\<close>

definition urlRegex :: "char \<Rightarrow> regex" where
  "urlRegex q =
     [Group (Alt [''href'', ''src'']), Star Space, Lit ''='', Star Space,
      Lit [q], Group (Plus (Except [q])), Lit [q]]"

text \<open>\<^verbatim>\<open>/<(\w+)[^>]*>\s*<\/\1>/gi\<close> and \<^verbatim>\<open>/<(\w+)[^>]*>\s+<\/\1>/gi\<close>\<close>

definition emptyTagRegex :: regex where
  "emptyTagRegex =
     [Lit ''<'', Group (Plus Word), Star (Except ''>''), Lit ''>'', Star Space,
      Lit ''</'', BackRef 1, Lit ''>'']"

definition whitespaceTagRegex :: regex where
  "whitespaceTagRegex =
     [Lit ''<'', Group (Plus Word), Star (Except ''>''), Lit ''>'', Plus Space,
      Lit ''</'', BackRef 1, Lit ''>'']"

text \<open>\<^verbatim>\<open>/(href|src)\s*=\s*["']javascript:[^"']*["']/gi\<close>, and the same for \<^verbatim>\<open>data:\<close>\<close>

definition dangerousUrlRegex :: "string \<Rightarrow> regex" where
  "dangerousUrlRegex scheme =
     [Group (Alt [''href'', ''src'']), Star Space, Lit ''='', Star Space,
      One (OneOf [CHR 0x22, CHR 0x27]), Lit scheme, Star (Except [CHR 0x22, CHR 0x27]),
      One (OneOf [CHR 0x22, CHR 0x27])]"

section \<open>The pattern constructor of the platform\<close>

text \<open>
  \<^verbatim>\<open>new RegExp(source, "gi")\<close> and the search of the pattern it returns are not code of
  the repository. For a source text built from a name without syntax characters they are
  given by the patterns above. For any other source text the constructor may raise a
  \<^verbatim>\<open>SyntaxError\<close> or return a pattern of another shape; what then happens is a parameter
  of the model, and the theorems hold for every value of it:

    \<^item> \<open>replace_empty pf source s\<close> is what
      \<^verbatim>\<open>s.replace(new RegExp(source, "gi"), "")\<close> evaluates to;

    \<^item> \<open>test_twice pf source original sanitized\<close> is what
      \<^verbatim>\<open>regex.test(original) && !regex.test(sanitized)\<close> evaluates to for
      \<^verbatim>\<open>regex = new RegExp(source, "gi")\<close>.
\<close>

record Platform =
  replace_empty :: "string \<Rightarrow> string \<Rightarrow> js_error + string"
  test_twice :: "string \<Rightarrow> string \<Rightarrow> string \<Rightarrow> js_error + bool"

text \<open>
  \<^verbatim>\<open>sanitized.replace(new RegExp(source, "gi"), "")\<close> for a source text built from
  \<open>name\<close>, where \<open>re\<close> is the pattern of a name without syntax characters.
\<close>

definition replace_named ::
  "Platform \<Rightarrow> string \<Rightarrow> string \<Rightarrow> regex \<Rightarrow> string \<Rightarrow> js_error + string" where
  "replace_named pf name source re sanitized =
     (if plain_name name then Inr (remove_all True re sanitized)
      else replace_empty pf source sanitized)"

section \<open>The sanitizer\<close>

text \<open>The text \<^verbatim>\<open>${attr}="#"\<close>.\<close>

definition hash_attr :: "string \<Rightarrow> string" where
  "hash_attr attr = attr @ [CHR ''='', CHR 0x22, CHR ''#'', CHR 0x22]"

text \<open>
  The callback of \<^verbatim>\<open>sanitizeUrls\<close>. \<^verbatim>\<open>new URL(url)\<close> is the parser of the
  platform: \<open>parse url\<close> is the \<^verbatim>\<open>protocol\<close> of the parsed URL, or \<open>None\<close> when the
  constructor throws. The pattern has two groups, \<^verbatim>\<open>attr\<close> and \<^verbatim>\<open>url\<close>.
\<close>

definition url_callback ::
  "SanitizerConfig \<Rightarrow> (string \<Rightarrow> string option) \<Rightarrow> string \<Rightarrow> string list \<Rightarrow> string" where
  "url_callback config parse m caps =
     (case caps of
        [attr, url] \<Rightarrow>
          (case parse url of
             None \<Rightarrow> hash_attr attr
           | Some protocol \<Rightarrow>
               if (case allowedProtocols config of
                     Some ps \<Rightarrow> protocol \<notin> set ps
                   | None \<Rightarrow> False)
               then hash_attr attr
               else if protocol = ''data:'' \<and> allowDataUrls config \<noteq> Some True
               then hash_attr attr
               else m)
      | _ \<Rightarrow> m)"

definition sanitizeUrls :: "SanitizerConfig \<Rightarrow> (string \<Rightarrow> string option) \<Rightarrow> string \<Rightarrow> string" where
  "sanitizeUrls config parse html =
     (let html1 = replace_all True (urlRegex (CHR 0x27)) (url_callback config parse) None html;
          html2 = replace_all True (urlRegex (CHR 0x22)) (url_callback config parse) None html1
      in html2)"

definition cleanupEmptyTags :: "string \<Rightarrow> string" where
  "cleanupEmptyTags html =
     (let html1 = remove_all True emptyTagRegex html;
          html2 = remove_all True whitespaceTagRegex html1
      in html2)"

text \<open>
  The loop \<^verbatim>\<open>disallowedElements.forEach\<close> of \<^verbatim>\<open>sanitize\<close>: two patterns are built and
  applied for each name, and an exception of the constructor ends the loop and the call.
\<close>

fun remove_elements :: "Platform \<Rightarrow> string \<Rightarrow> string list \<Rightarrow> js_error + string" where
  "remove_elements pf sanitized [] = Inr sanitized"
| "remove_elements pf sanitized (tag # tags) =
     (case replace_named pf tag (elementSource tag) (elementRegex tag) sanitized of
        Inl e \<Rightarrow> Inl e
      | Inr s1 \<Rightarrow>
          (case replace_named pf tag (selfClosingSource tag) (selfClosingRegex tag) s1 of
             Inl e \<Rightarrow> Inl e
           | Inr s2 \<Rightarrow> remove_elements pf s2 tags))"

text \<open>The loop \<^verbatim>\<open>disallowedAttributes.forEach\<close> of \<^verbatim>\<open>sanitize\<close>.\<close>

fun remove_attributes :: "Platform \<Rightarrow> string \<Rightarrow> string list \<Rightarrow> js_error + string" where
  "remove_attributes pf sanitized [] = Inr sanitized"
| "remove_attributes pf sanitized (attr # attrs) =
     (case replace_named pf attr (singleQuoteSource attr) (singleQuoteRegex attr) sanitized of
        Inl e \<Rightarrow> Inl e
      | Inr s1 \<Rightarrow>
          (case replace_named pf attr (doubleQuoteSource attr) (doubleQuoteRegex attr) s1 of
             Inl e \<Rightarrow> Inl e
           | Inr s2 \<Rightarrow> remove_attributes pf s2 attrs))"

text \<open>\<^verbatim>\<open>Sanitizer.sanitize\<close>, on a string that is not empty.\<close>

definition sanitize_string ::
  "Platform \<Rightarrow> SanitizerConfig \<Rightarrow> (string \<Rightarrow> string option) \<Rightarrow> string \<Rightarrow> js_error + string" where
  "sanitize_string pf config parse html =
     (let s1 = (if stripDoctype config = Some True then remove_all True doctypeRegex html else html);
          s2 = (if stripComments config = Some True then remove_all False commentRegex s1 else s1)
      in case (case disallowedElements config of
                 Some tags \<Rightarrow> remove_elements pf s2 tags
               | None \<Rightarrow> Inr s2) of
           Inl e \<Rightarrow> Inl e
         | Inr s3 \<Rightarrow>
             (case (case disallowedAttributes config of
                      Some attrs \<Rightarrow> remove_attributes pf s3 attrs
                    | None \<Rightarrow> Inr s3) of
                Inl e \<Rightarrow> Inl e
              | Inr s4 \<Rightarrow>
                  let s5 = sanitizeUrls config parse s4;
                      s6 = cleanupEmptyTags s5
                  in Inr (trim s6)))"

text \<open>\<^verbatim>\<open>Sanitizer.sanitize\<close>: the guard \<^verbatim>\<open>!html || typeof html !== "string"\<close> comes first.\<close>

definition sanitize ::
  "Platform \<Rightarrow> SanitizerConfig \<Rightarrow> (string \<Rightarrow> string option) \<Rightarrow> js_value \<Rightarrow> js_error + string" where
  "sanitize pf config parse html =
     (if \<not> truthy html \<or> \<not> is_string html then Inr []
      else case html of JString s \<Rightarrow> sanitize_string pf config parse s | _ \<Rightarrow> Inr [])"

text \<open>\<^verbatim>\<open>Sanitizer.isElementAllowed\<close> and \<^verbatim>\<open>Sanitizer.isAttributeAllowed\<close>.\<close>

definition isElementAllowed :: "SanitizerConfig \<Rightarrow> string \<Rightarrow> bool" where
  "isElementAllowed config tagName =
     (if (case disallowedElements config of
            Some d \<Rightarrow> toLowerCase tagName \<in> set d
          | None \<Rightarrow> False)
      then False
      else case allowedElements config of
             Some a \<Rightarrow> toLowerCase tagName \<in> set a
           | None \<Rightarrow> True)"

definition isAttributeAllowed :: "SanitizerConfig \<Rightarrow> string \<Rightarrow> bool" where
  "isAttributeAllowed config attributeName =
     (if (case disallowedAttributes config of
            Some d \<Rightarrow> toLowerCase attributeName \<in> set d
          | None \<Rightarrow> False)
      then False
      else case allowedAttributes config of
             Some a \<Rightarrow> toLowerCase attributeName \<in> set a
           | None \<Rightarrow> True)"

text \<open>\<^verbatim>\<open>Sanitizer.removeUnsafe\<close>: the two fixed lists, and the method on a string.\<close>

definition unsafeElements :: "string list" where
  "unsafeElements = [''script'', ''style'', ''iframe'', ''object'', ''embed'']"

definition unsafeAttributes :: "string list" where
  "unsafeAttributes = [''onclick'', ''onload'', ''onerror'', ''onmouseover'', ''onmouseout'',
     ''onfocus'', ''onblur'', ''onchange'', ''onsubmit'', ''onkeydown'', ''onkeyup'']"

definition dollar1_hash :: "string \<Rightarrow> string list \<Rightarrow> string" where
  "dollar1_hash m caps = hash_attr (case caps of c # _ \<Rightarrow> c | [] \<Rightarrow> [])"

text \<open>
  The two replacements that the loops of \<^verbatim>\<open>removeUnsafe\<close> make for one name. The names
  are those of the two fixed lists, which hold no syntax character, so the patterns are
  the ones given above.
\<close>

definition remove_element :: "string \<Rightarrow> string \<Rightarrow> string" where
  "remove_element sanitized tag =
     remove_all True (selfClosingRegex tag) (remove_all True (elementRegex tag) sanitized)"

definition remove_attribute :: "string \<Rightarrow> string \<Rightarrow> string" where
  "remove_attribute sanitized attr =
     remove_all True (doubleQuoteRegex attr) (remove_all True (singleQuoteRegex attr) sanitized)"

definition removeUnsafe_string :: "string \<Rightarrow> string" where
  "removeUnsafe_string html =
     (let s1 = foldl remove_element html unsafeElements;
          s2 = foldl remove_attribute s1 unsafeAttributes;
          s3 = replace_all True (dangerousUrlRegex ''javascript:'') dollar1_hash None s2;
          s4 = replace_all True (dangerousUrlRegex ''data:'') dollar1_hash None s3
      in trim s4)"

text \<open>
  \<^verbatim>\<open>Sanitizer.removeUnsafe\<close> has no guard: the first thing it does with its argument is
  to call \<^verbatim>\<open>replace\<close> on it, which only a string has.
\<close>

definition removeUnsafe :: "js_value \<Rightarrow> js_error + string" where
  "removeUnsafe html =
     (case html of
        JString s \<Rightarrow> Inr (removeUnsafe_string s)
      | _ \<Rightarrow> Inl TypeError)"


section \<open>The URL parser of the platform\<close>

text \<open>
  \<^verbatim>\<open>new URL(url)\<close> is not code of the repository, so the sanitizer above takes the
  parser as a parameter and the theorems about it hold for every parser. Where a
  concrete parser is needed to evaluate an example, it is the one below: the first two
  states of the URL standard's parser, which read the scheme. Without a scheme the
  constructor throws, since there is no base URL. The parser of the platform refuses
  some more inputs, such as an \<^verbatim>\<open>http:\<close> URL with a malformed host; no example below
  depends on those.
\<close>

definition is_alpha :: "char \<Rightarrow> bool" where
  "is_alpha c = (let n = code c in (65 \<le> n \<and> n \<le> 90) \<or> (97 \<le> n \<and> n \<le> 122))"

definition is_scheme_char :: "char \<Rightarrow> bool" where
  "is_scheme_char c = (let n = code c in
     is_alpha c \<or> (48 \<le> n \<and> n \<le> 57) \<or> c = CHR ''+'' \<or> c = CHR ''-'' \<or> c = CHR ''.'')"

definition is_c0_or_space :: "char \<Rightarrow> bool" where
  "is_c0_or_space c = (code c \<le> 32)"

definition is_tab_or_newline :: "char \<Rightarrow> bool" where
  "is_tab_or_newline c = (let n = code c in n = 9 \<or> n = 10 \<or> n = 13)"

definition url_protocol :: "string \<Rightarrow> string option" where
  "url_protocol url =
     (let stripped = rev (dropWhile is_c0_or_space (rev (dropWhile is_c0_or_space url)));
          input = filter (\<lambda>c. \<not> is_tab_or_newline c) stripped;
          scheme = takeWhile is_scheme_char input;
          rest = dropWhile is_scheme_char input
      in case scheme of
           [] \<Rightarrow> None
         | c # _ \<Rightarrow>
             if is_alpha c \<and> (case rest of r # _ \<Rightarrow> r = CHR '':'' | [] \<Rightarrow> False)
             then Some (toLowerCase scheme @ '':'')
             else None)"

section \<open>The entry points that write to a sink\<close>

record HTMLElement =
  innerHTML :: string

text \<open>
  \<^verbatim>\<open>options.sanitizer\<close> is the string \<^verbatim>\<open>"default"\<close>, an instance of \<^verbatim>\<open>Sanitizer\<close>
  (given by its configuration, as built by the constructor), or a configuration record.
\<close>

datatype sanitizer_option =
    Default_string
  | Instance SanitizerConfig
  | Config SanitizerConfig

record SetHTMLOptions =
  sanitizer :: "sanitizer_option option"

text \<open>
  The choice of the sanitizer, which the four functions below make in the same way;
  \<open>dflt\<close> is what they use when no sanitizer is given.
\<close>

definition choose_sanitizer :: "SanitizerConfig \<Rightarrow> SetHTMLOptions option \<Rightarrow> SanitizerConfig" where
  "choose_sanitizer dflt options =
     (case options of
        None \<Rightarrow> dflt
      | Some opts \<Rightarrow>
          (case sanitizer opts of
             None \<Rightarrow> dflt
           | Some Default_string \<Rightarrow> dflt
           | Some (Instance s) \<Rightarrow> s
           | Some (Config c) \<Rightarrow> new_Sanitizer (Some c)))"

text \<open>
  \<^verbatim>\<open>setHTML\<close> and \<^verbatim>\<open>setHTMLUnsafe\<close>. The element is \<open>None\<close> for \<^verbatim>\<open>null\<close>; the
  result is the element after the call, or the exception.
\<close>

definition setHTML ::
  "HTMLElement option \<Rightarrow> js_value \<Rightarrow> SetHTMLOptions option \<Rightarrow> js_error + HTMLElement option" where
  "setHTML element input options =
     (case element of
        None \<Rightarrow> Inr None
      | Some el \<Rightarrow>
          if \<not> is_string input then Inr (Some el)
          else let this = choose_sanitizer (new_Sanitizer None) options
               in case removeUnsafe input of
                    Inl e \<Rightarrow> Inl e
                  | Inr sanitizedHTML \<Rightarrow> Inr (Some (el\<lparr>innerHTML := sanitizedHTML\<rparr>)))"

definition setHTMLUnsafe ::
  "Platform \<Rightarrow> (string \<Rightarrow> string option) \<Rightarrow> HTMLElement option \<Rightarrow> js_value
     \<Rightarrow> SetHTMLOptions option \<Rightarrow> js_error + HTMLElement option" where
  "setHTMLUnsafe pf parse element input options =
     (case element of
        None \<Rightarrow> Inr None
      | Some el \<Rightarrow>
          if \<not> is_string input then Inr (Some el)
          else let this = choose_sanitizer (new_Sanitizer None) options
               in case sanitize pf this parse input of
                    Inl e \<Rightarrow> Inl e
                  | Inr sanitizedHTML \<Rightarrow> Inr (Some (el\<lparr>innerHTML := sanitizedHTML\<rparr>)))"

text \<open>\<^verbatim>\<open>class ShadowRootProcessor\<close>.\<close>

record ShadowRootProcessor =
  content :: string
  own_sanitizer :: SanitizerConfig

definition new_ShadowRootProcessor :: "SanitizerConfig option \<Rightarrow> ShadowRootProcessor" where
  "new_ShadowRootProcessor sanitizerConfig =
     \<lparr> content = [], own_sanitizer = new_Sanitizer sanitizerConfig \<rparr>"

definition shadow_setHTML ::
  "ShadowRootProcessor \<Rightarrow> js_value \<Rightarrow> SetHTMLOptions option \<Rightarrow> js_error + ShadowRootProcessor" where
  "shadow_setHTML this input options =
     (if \<not> is_string input then Inr this
      else let chosen = choose_sanitizer (own_sanitizer this) options
           in case removeUnsafe input of
                Inl e \<Rightarrow> Inl e
              | Inr r \<Rightarrow> Inr (this\<lparr>content := r\<rparr>))"

definition shadow_setHTMLUnsafe ::
  "Platform \<Rightarrow> (string \<Rightarrow> string option) \<Rightarrow> ShadowRootProcessor \<Rightarrow> js_value
     \<Rightarrow> SetHTMLOptions option \<Rightarrow> js_error + ShadowRootProcessor" where
  "shadow_setHTMLUnsafe pf parse this input options =
     (if \<not> is_string input then Inr this
      else let chosen = choose_sanitizer (own_sanitizer this) options
           in case sanitize pf chosen parse input of
                Inl e \<Rightarrow> Inl e
              | Inr r \<Rightarrow> Inr (this\<lparr>content := r\<rparr>))"

definition getHTML :: "ShadowRootProcessor \<Rightarrow> string" where
  "getHTML this = content this"

definition clear :: "ShadowRootProcessor \<Rightarrow> ShadowRootProcessor" where
  "clear this = this\<lparr>content := []\<rparr>"

section \<open>The processor with metadata\<close>

record SanitizationResult =
  sanitizedHTML :: string
  wasModified :: bool
  removedElements :: "string list"
  removedAttributes :: "string list"

text \<open>\<^verbatim>\<open><\/?${tag}[^>]*>\<close>, flags \<^verbatim>\<open>gi\<close>\<close>

definition removedElementSource :: "string \<Rightarrow> string" where
  "removedElementSource tag = ''<'' @ [CHR 0x5C] @ ''/?'' @ tag @ ''[^>]*>''"

definition removedElementRegex :: "string \<Rightarrow> regex" where
  "removedElementRegex tag = [Lit ''<'', Opt CHR ''/'', Lit tag, Star (Except ''>''), Lit ''>'']"

text \<open>\<^verbatim>\<open>\s+${attr}\s*=\s*["'][^"']*["']\<close>, flags \<^verbatim>\<open>gi\<close>\<close>

definition removedAttributeSource :: "string \<Rightarrow> string" where
  "removedAttributeSource attr =
     [CHR 0x5C] @ ''s+'' @ attr @ [CHR 0x5C] @ ''s*='' @ [CHR 0x5C] @ ''s*''
     @ ''['' @ [CHR 0x22, CHR 0x27] @ ''][^'' @ [CHR 0x22, CHR 0x27] @ '']*[''
     @ [CHR 0x22, CHR 0x27] @ '']''"

definition removedAttributeRegex :: "string \<Rightarrow> regex" where
  "removedAttributeRegex attr =
     [Plus Space, Lit attr, Star Space, Lit ''='', Star Space,
      One (OneOf [CHR 0x22, CHR 0x27]), Star (Except [CHR 0x22, CHR 0x27]),
      One (OneOf [CHR 0x22, CHR 0x27])]"

text \<open>
  The condition \<^verbatim>\<open>regex.test(original) && !regex.test(sanitized)\<close> on one pattern
  object, made with the \<^verbatim>\<open>g\<close> flag: the second call starts at the \<^verbatim>\<open>lastIndex\<close> that the
  first one has left.
\<close>

definition test_removed :: "regex \<Rightarrow> string \<Rightarrow> string \<Rightarrow> bool" where
  "test_removed re original sanitized =
     (case regex_test True re original 0 of
        (False, lastIndex) \<Rightarrow> False
      | (True, lastIndex) \<Rightarrow> \<not> fst (regex_test True re sanitized lastIndex))"

text \<open>The same condition for a source text built from \<open>name\<close>.\<close>

definition test_named ::
  "Platform \<Rightarrow> string \<Rightarrow> string \<Rightarrow> regex \<Rightarrow> string \<Rightarrow> string \<Rightarrow> js_error + bool" where
  "test_named pf name source re original sanitized =
     (if plain_name name then Inr (test_removed re original sanitized)
      else test_twice pf source original sanitized)"

text \<open>
  The loops \<^verbatim>\<open>forEach\<close> of the two functions below: the names that pass the condition
  are collected in \<open>removed\<close>, and an exception ends the loop and the call.
\<close>

fun collect_removed ::
  "(string \<Rightarrow> js_error + bool) \<Rightarrow> string list \<Rightarrow> string list \<Rightarrow> js_error + string list" where
  "collect_removed check removed [] = Inr removed"
| "collect_removed check removed (name # names) =
     (case check name of
        Inl e \<Rightarrow> Inl e
      | Inr b \<Rightarrow> collect_removed check (if b then removed @ [name] else removed) names)"

definition extractRemovedElements ::
  "Platform \<Rightarrow> SanitizerConfig \<Rightarrow> string \<Rightarrow> string \<Rightarrow> js_error + string list" where
  "extractRemovedElements pf config original sanitized =
     (case disallowedElements config of
        Some tags \<Rightarrow>
          collect_removed
            (\<lambda>tag. test_named pf tag (removedElementSource tag) (removedElementRegex tag)
                     original sanitized)
            [] tags
      | None \<Rightarrow> Inr [])"

definition extractRemovedAttributes ::
  "Platform \<Rightarrow> SanitizerConfig \<Rightarrow> string \<Rightarrow> string \<Rightarrow> js_error + string list" where
  "extractRemovedAttributes pf config original sanitized =
     (case disallowedAttributes config of
        Some attrs \<Rightarrow>
          collect_removed
            (\<lambda>attr. test_named pf attr (removedAttributeSource attr) (removedAttributeRegex attr)
                      original sanitized)
            [] attrs
      | None \<Rightarrow> Inr [])"

text \<open>
  \<^verbatim>\<open>NodeHTMLProcessor.processHTMLWithMetadata\<close>, for the processor whose sanitizer has
  the configuration \<open>config\<close>.
\<close>

definition processHTMLWithMetadata ::
  "Platform \<Rightarrow> SanitizerConfig \<Rightarrow> (string \<Rightarrow> string option) \<Rightarrow> string
     \<Rightarrow> js_error + SanitizationResult" where
  "processHTMLWithMetadata pf config parse html =
     (let originalHTML = html
      in case sanitize pf config parse (JString html) of
           Inl e \<Rightarrow> Inl e
         | Inr sanitized \<Rightarrow>
             (case extractRemovedElements pf config originalHTML sanitized of
                Inl e \<Rightarrow> Inl e
              | Inr removedEls \<Rightarrow>
                  (case extractRemovedAttributes pf config originalHTML sanitized of
                     Inl e \<Rightarrow> Inl e
                   | Inr removedAttrs \<Rightarrow>
                       Inr \<lparr> sanitizedHTML = sanitized,
                             wasModified = (sanitized \<noteq> originalHTML),
                             removedElements = removedEls,
                             removedAttributes = removedAttrs \<rparr>)))"

section \<open>The structure check\<close>

record ValidationResult =
  isValid :: bool
  errors :: "string list"
  warnings :: "string list"

text \<open>\<^verbatim>\<open>/<(\w+)[^>]*>/g\<close> and \<^verbatim>\<open>/<\/(\w+)>/g\<close>\<close>

definition tagRegex :: regex where
  "tagRegex = [Lit ''<'', Group (Plus Word), Star (Except ''>''), Lit ''>'']"

definition closingTagRegex :: regex where
  "closingTagRegex = [Lit ''</'', Group (Plus Word), Lit ''>'']"

text \<open>
  The loop \<^verbatim>\<open>while ((match = re.exec(html)) !== null)\<close>, which collects \<^verbatim>\<open>match[1]\<close>.
  After an empty match \<^verbatim>\<open>lastIndex\<close> does not move and the loop never ends: that is the
  result \<open>None\<close>.
\<close>

function exec_loop :: "bool \<Rightarrow> regex \<Rightarrow> char option \<Rightarrow> string \<Rightarrow> string list option" where
  "exec_loop ic re prv s =
     (case exec_at ic re prv s of
        None \<Rightarrow> (case s of [] \<Rightarrow> Some [] | c # cs \<Rightarrow> exec_loop ic re (Some c) cs)
      | Some (m, rest, caps) \<Rightarrow>
          if m = [] then None
          else (case exec_loop ic re (Some (last m)) rest of
                  None \<Rightarrow> None
                | Some found \<Rightarrow> Some ((case caps of c # _ \<Rightarrow> c | [] \<Rightarrow> []) # found)))"
  by pat_completeness auto
termination
  by (relation "measure (\<lambda>(ic, re, prv, s). length s)") (auto intro: exec_at_shorter)

declare exec_loop.simps [simp del]

definition isSelfClosingTag :: "string \<Rightarrow> bool" where
  "isSelfClosingTag tagName =
     (toLowerCase tagName \<in> set [''area'', ''base'', ''br'', ''col'', ''embed'', ''hr'', ''img'',
        ''input'', ''link'', ''meta'', ''param'', ''source'', ''track'', ''wbr''])"

text \<open>\<^verbatim>\<open>Array.prototype.join\<close>.\<close>

fun join :: "string \<Rightarrow> string list \<Rightarrow> string" where
  "join sep [] = []"
| "join sep [x] = x"
| "join sep (x # y # ys) = x @ sep @ join sep (y # ys)"

text \<open>
  The two messages: \<^verbatim>\<open>Closing tag '${tag}' without matching opening tag\<close> and
  \<^verbatim>\<open>Mismatched tags: expected '${lastTag}', found '${tag}'\<close>.
\<close>

definition closing_without_opening :: "string \<Rightarrow> string" where
  "closing_without_opening tag =
     ''Closing tag '' @ [CHR 0x27] @ tag @ [CHR 0x27] @ '' without matching opening tag''"

definition mismatched_tags :: "string \<Rightarrow> string \<Rightarrow> string" where
  "mismatched_tags lastTag tag =
     ''Mismatched tags: expected '' @ [CHR 0x27] @ lastTag @ [CHR 0x27]
     @ '', found '' @ [CHR 0x27] @ tag @ [CHR 0x27]"

text \<open>
  One round of the loop over the closing tags. The stack is an array: \<^verbatim>\<open>push\<close> and
  \<^verbatim>\<open>pop\<close> work at its end.
\<close>

definition close_step :: "string list \<times> string list \<Rightarrow> string \<Rightarrow> string list \<times> string list" where
  "close_step st tag =
     (case st of (stack, errs) \<Rightarrow>
        if stack = [] then (stack, errs @ [closing_without_opening tag])
        else
          let lastTag = last stack; stack' = butlast stack
          in if lastTag \<noteq> tag then (stack', errs @ [mismatched_tags lastTag tag])
             else (stack', errs))"

text \<open>The check, once the two loops over the text have given the tags.\<close>

definition check_tags :: "string list \<Rightarrow> string list \<Rightarrow> ValidationResult" where
  "check_tags openTags closeTags =
     (let stack0 = filter (\<lambda>tag. \<not> isSelfClosingTag tag) openTags;
          (stack, errs) = foldl close_step (stack0, []) closeTags;
          warns = (if stack \<noteq> [] then [''Unclosed tags: '' @ join '', '' stack] else [])
      in \<lparr> isValid = (errs = []), errors = errs, warnings = warns \<rparr>)"

text \<open>\<^verbatim>\<open>NodeHTMLProcessor.validateHTMLStructure\<close>; \<open>None\<close> when one of its loops does not end.\<close>

definition validateHTMLStructure :: "string \<Rightarrow> ValidationResult option" where
  "validateHTMLStructure html =
     (case exec_loop False tagRegex None html of
        None \<Rightarrow> None
      | Some opened \<Rightarrow>
          (case exec_loop False closingTagRegex None html of
             None \<Rightarrow> None
           | Some closed \<Rightarrow>
               Some (check_tags
                       (filter (\<lambda>tagName. \<not> isSelfClosingTag tagName) (map toLowerCase opened))
                       (map toLowerCase closed))))"

section \<open>Facts about characters and matching\<close>

lemma code_less_256: "code c < 256"
  by (simp add: code_def)

lemma code_char_of: "n < 256 \<Longrightarrow> code (char_of n) = n"
  by (simp add: code_def)

definition has_upper :: "bool \<Rightarrow> char \<Rightarrow> bool" where
  "has_upper ic c = (ic \<and> ((97 \<le> code c \<and> code c \<le> 122) \<or> (224 \<le> code c \<and> code c \<le> 254 \<and> code c \<noteq> 247)))"

lemma code_canon:
  "code (canon ic c) = (if has_upper ic c then code c - 32 else code c)"
  using code_less_256 [of c] by (auto simp: canon_def Let_def code_char_of has_upper_def)

lemma canon_below_letters:
  assumes c: "code c < 65" and e: "canon ic d = canon ic c"
  shows "d = c"
proof -
  from e have "code (canon ic d) = code (canon ic c)" by simp
  moreover from c have "\<not> has_upper ic c" by (simp add: has_upper_def)
  ultimately have "(if has_upper ic d then code d - 32 else code d) = code c"
    by (simp add: code_canon)
  with c have "code d = code c"
    by (cases "has_upper ic d") (auto simp: has_upper_def)
  then show ?thesis by (rule code_inj)
qed


lemma is_word_code:
  "is_word c = ((48 \<le> code c \<and> code c \<le> 57) \<or> (65 \<le> code c \<and> code c \<le> 90) \<or> code c = 95
     \<or> (97 \<le> code c \<and> code c \<le> 122))"
  by (simp add: is_word_def Let_def)

lemma canon_is_word:
  assumes "canon ic c = canon ic d"
  shows "is_word c = is_word d"
proof -
  from assms have e: "code (canon ic c) = code (canon ic d)" by simp
  show ?thesis
  proof (cases "has_upper ic c")
    case True
    note uc = True
    show ?thesis
    proof (cases "has_upper ic d")
      case True
      with uc e have "code c - 32 = code d - 32" by (simp add: code_canon)
      with uc True have "code c = code d" unfolding has_upper_def by arith
      then show ?thesis by (simp add: is_word_code)
    next
      case False
      with uc e have "code d = code c - 32" by (simp add: code_canon)
      with uc show ?thesis unfolding has_upper_def is_word_code by arith
    qed
  next
    case False
    note nc = False
    show ?thesis
    proof (cases "has_upper ic d")
      case True
      with nc e have "code c = code d - 32" by (simp add: code_canon)
      with True show ?thesis unfolding has_upper_def is_word_code by arith
    next
      case False
      with nc e have "code c = code d" by (simp add: code_canon)
      then show ?thesis by (simp add: is_word_code)
    qed
  qed
qed


text \<open>A literal of the pattern is read in every match, up to case.\<close>

lemma m_seq_lit:
  "(acc', rest', caps') \<in> set (m_seq ic prv re (acc, rest, caps)) \<Longrightarrow> Lit l \<in> set re \<Longrightarrow>
     \<exists>x. acc' = rev x @ acc \<and> rest = x @ rest'
       \<and> set (map (canon ic) l) \<subseteq> set (map (canon ic) x)"
proof (induction re arbitrary: acc rest caps)
  case Nil
  then show ?case by simp
next
  case (Cons a re)
  from Cons.prems(1) obtain acc1 rest1 caps1 where
    m1: "(acc1, rest1, caps1) \<in> set (m_atom ic prv a (acc, rest, caps))" and
    m2: "(acc', rest', caps') \<in> set (m_seq ic prv re (acc1, rest1, caps1))"
    by auto
  from m_atom_ext [OF m1] obtain x where x: "acc1 = rev x @ acc" "rest = x @ rest1" by blast
  from m_seq_ext [OF m2] obtain y where y: "acc' = rev y @ acc1" "rest1 = y @ rest'" by blast
  from x y have xy: "acc' = rev (x @ y) @ acc \<and> rest = (x @ y) @ rest'" by simp
  show ?case
  proof (cases "a = Lit l")
    case True
    with m1 have "(acc1, rest1, caps1) \<in> set (lit ic l (acc, rest, caps))" by simp
    from lit_ext [OF this] obtain x' where
      x': "acc1 = rev x' @ acc" "rest = x' @ rest1" "map (canon ic) x' = map (canon ic) l"
      by blast
    from x x' have "x' = x" by simp
    with x' have "set (map (canon ic) l) \<subseteq> set (map (canon ic) (x @ y))" by auto
    with xy show ?thesis by blast
  next
    case False
    with Cons.prems(2) have "Lit l \<in> set re" by simp
    from Cons.IH [OF m2 this] obtain y' where
      y': "acc' = rev y' @ acc1" "rest1 = y' @ rest'"
        "set (map (canon ic) l) \<subseteq> set (map (canon ic) y')"
      by blast
    from y y' have "y' = y" by simp
    with y' have "set (map (canon ic) l) \<subseteq> set (map (canon ic) (x @ y))" by auto
    with xy show ?thesis by blast
  qed
qed

lemma exec_at_lit:
  assumes "exec_at ic re prv s = Some (m, rest, caps)" and "Lit l \<in> set re"
  shows "set (map (canon ic) l) \<subseteq> set (map (canon ic) m)"
proof -
  from m_seq_lit [OF exec_at_mem [OF assms(1)] assms(2)] obtain x where
    "rev m = rev x @ []" and "set (map (canon ic) l) \<subseteq> set (map (canon ic) x)"
    by blast
  then show ?thesis by simp
qed

text \<open>
  A pattern with a literal that holds a character below the letters, such as \<^verbatim>\<open><\<close> or
  \<^verbatim>\<open>=\<close>, matches nowhere in a text without that character, and replacing leaves such a
  text as it is.
\<close>

lemma exec_at_needs_char:
  assumes "Lit l \<in> set re" and "c \<in> set l" and "code c < 65" and "c \<notin> set s"
  shows "exec_at ic re prv s = None"
proof (rule ccontr)
  assume "exec_at ic re prv s \<noteq> None"
  then obtain m rest caps where e: "exec_at ic re prv s = Some (m, rest, caps)" by auto
  from exec_at_lit [OF e assms(1)] assms(2) have "canon ic c \<in> set (map (canon ic) m)" by auto
  then obtain d where "d \<in> set m" and "canon ic d = canon ic c" by auto
  with canon_below_letters [OF assms(3)] have "c \<in> set m" by blast
  with exec_at_append [OF e] assms(4) show False by simp
qed

lemma replace_all_needs_char:
  assumes "Lit l \<in> set re" and "c \<in> set l" and "code c < 65"
  shows "c \<notin> set s \<Longrightarrow> replace_all ic re f prv s = s"
proof (induction s arbitrary: prv)
  case Nil
  with exec_at_needs_char [OF assms, of "[]" ic prv] show ?case
    by (simp add: replace_all.simps)
next
  case (Cons a s)
  from Cons.prems exec_at_needs_char [OF assms, of "a # s" ic prv]
  have "exec_at ic re prv (a # s) = None" by simp
  moreover from Cons have "replace_all ic re f (Some a) s = s" by simp
  ultimately show ?case by (simp add: replace_all.simps [of ic re f prv "a # s"])
qed

lemma remove_all_needs_char:
  "Lit l \<in> set re \<Longrightarrow> c \<in> set l \<Longrightarrow> code c < 65 \<Longrightarrow> c \<notin> set s \<Longrightarrow> remove_all ic re s = s"
  by (simp add: remove_all_def replace_all_needs_char)

lemma code_lt: "code CHR ''<'' < 65" and code_eq: "code CHR ''='' < 65"
  by (simp_all add: code_def)

lemma remove_element_no_lt: "CHR ''<'' \<notin> set s \<Longrightarrow> remove_element s tag = s"
  by (simp add: remove_element_def
      remove_all_needs_char [of "''<''" _ "CHR ''<''"] elementRegex_def selfClosingRegex_def code_lt)

lemma remove_attribute_no_eq: "CHR ''='' \<notin> set s \<Longrightarrow> remove_attribute s attr = s"
  by (simp add: remove_attribute_def
      remove_all_needs_char [of "''=''" _ "CHR ''=''"] singleQuoteRegex_def doubleQuoteRegex_def code_eq)

lemma foldl_remove_element_no_lt: "CHR ''<'' \<notin> set s \<Longrightarrow> foldl remove_element s tags = s"
  by (induction tags) (simp_all add: remove_element_no_lt)

lemma foldl_remove_attribute_no_eq: "CHR ''='' \<notin> set s \<Longrightarrow> foldl remove_attribute s attrs = s"
  by (induction attrs) (simp_all add: remove_attribute_no_eq)

lemma sanitizeUrls_no_eq: "CHR ''='' \<notin> set s \<Longrightarrow> sanitizeUrls config parse s = s"
  by (simp add: sanitizeUrls_def urlRegex_def
      replace_all_needs_char [of "''=''" _ "CHR ''=''"] code_eq)

lemma cleanupEmptyTags_no_lt: "CHR ''<'' \<notin> set s \<Longrightarrow> cleanupEmptyTags s = s"
  by (simp add: cleanupEmptyTags_def emptyTagRegex_def whitespaceTagRegex_def
      remove_all_needs_char [of "''<''" _ "CHR ''<''"] code_lt)


lemma dropWhile_snoc_keeps_last:
  "\<not> P x \<Longrightarrow> \<exists>ys. dropWhile P (zs @ [x]) = ys @ [x]"
  by (induction zs) auto

lemma trim_idem: "trim (trim s) = trim s"
proof (cases "dropWhile is_space s")
  case Nil
  have "trim s = []" unfolding trim_def Nil by simp
  moreover have "trim [] = []" by (simp add: trim_def)
  ultimately show ?thesis by simp
next
  case (Cons x xs)
  then have nx: "\<not> is_space x" using hd_dropWhile [of is_space s] by auto
  from nx dropWhile_snoc_keeps_last [of is_space x "rev xs"] obtain ys where
    ys: "dropWhile is_space (rev xs @ [x]) = ys @ [x]" by blast
  have t: "trim s = x # rev ys"
    using Cons ys by (simp add: trim_def)
  have "dropWhile is_space (rev (x # rev ys)) = ys @ [x]"
    using ys by (metis dropWhile_idem rev.simps(2) rev_rev_ident)
  then have "trim (x # rev ys) = x # rev ys"
    using nx by (simp add: trim_def)
  with t show ?thesis by simp
qed

lemma set_trim: "set (trim s) \<subseteq> set s"
proof -
  have "set (trim s) = set (dropWhile is_space (rev (dropWhile is_space s)))"
    by (simp add: trim_def)
  also have "\<dots> \<subseteq> set (rev (dropWhile is_space s))" by (rule set_dropWhileD [THEN subsetI])
  also have "\<dots> \<subseteq> set s" using set_dropWhileD [of _ is_space s] by auto
  finally show ?thesis .
qed

section \<open>Configurations used in the examples\<close>

text \<open>The configuration record \<^verbatim>\<open>{}\<close>.\<close>

definition empty_config :: SanitizerConfig where
  "empty_config = \<lparr>
     elements = None, removeElements = None, allowedElements = None, disallowedElements = None,
     allowedAttributes = None, disallowedAttributes = None, allowedProtocols = None,
     allowDataUrls = None, stripComments = None, stripDoctype = None \<rparr>"

text \<open>The sanitizer \<^verbatim>\<open>new Sanitizer()\<close>.\<close>

definition default_sanitizer :: SanitizerConfig where
  "default_sanitizer = new_Sanitizer None"

lemma default_sanitizer_eq: "default_sanitizer = DEFAULT_SANITIZER_CONFIG"
  by (simp add: default_sanitizer_def new_Sanitizer_def normalizeConfig_def spread_def
      or_else_def DEFAULT_SANITIZER_CONFIG_def)

section \<open>Where a pattern matches\<close>

text \<open>
  \<open>matches ic re s\<close>: the pattern matches somewhere in \<open>s\<close>, which is what \<^verbatim>\<open>re.test(s)\<close>
  answers for a pattern whose \<^verbatim>\<open>lastIndex\<close> is 0.
\<close>

definition matches :: "bool \<Rightarrow> regex \<Rightarrow> string \<Rightarrow> bool" where
  "matches ic re s = fst (regex_test ic re s 0)"

lemma find_match_None_pos:
  "find_match ic re prv s pos = None \<Longrightarrow> find_match ic re prv s pos' = None"
  by (induction s arbitrary: prv pos pos') (auto split: option.splits)

lemma matches_iff: "matches ic re s = (find_match ic re None s 0 \<noteq> None)"
  by (auto simp: matches_def regex_test_def split: option.splits)

lemma replace_all_no_match:
  "find_match ic re prv s pos = None \<Longrightarrow> replace_all ic re f prv s = s"
proof (induction s arbitrary: prv pos)
  case Nil
  then have "exec_at ic re prv [] = None" by (auto split: option.splits)
  then show ?case by (subst replace_all.simps) simp
next
  case (Cons c cs)
  from Cons.prems have e: "exec_at ic re prv (c # cs) = None"
    and "find_match ic re (Some c) cs (Suc pos) = None"
    by (auto split: option.splits)
  from Cons.IH [OF this(2)] e show ?case by (subst replace_all.simps) simp
qed

lemma replace_all_length_le:
  assumes bound: "\<And>prv s m rest caps.
      exec_at ic re prv s = Some (m, rest, caps) \<Longrightarrow> length (f m caps) \<le> length m"
  shows "length (replace_all ic re f prv s) \<le> length s"
proof (induction s arbitrary: prv rule: length_induct)
  case (1 s)
  show ?case
  proof (cases "exec_at ic re prv s")
    case None
    show ?thesis
    proof (cases s)
      case Nil
      with None show ?thesis by (subst replace_all.simps) simp
    next
      case (Cons c cs)
      with "1.IH" have "length (replace_all ic re f (Some c) cs) \<le> length cs" by simp
      with None Cons show ?thesis by (subst replace_all.simps) simp
    qed
  next
    case (Some x)
    obtain m rest caps where x: "x = (m, rest, caps)" by (cases x) auto
    from Some x have e: "exec_at ic re prv s = Some (m, rest, caps)" by simp
    from bound [OF e] have b: "length (f m caps) \<le> length m" .
    from exec_at_append [OF e] have s: "s = m @ rest" .
    show ?thesis
    proof (cases "m = []")
      case True
      with b have f: "f m caps = []" by simp
      show ?thesis
      proof (cases s)
        case Nil
        with e True f show ?thesis by (subst replace_all.simps) simp
      next
        case (Cons c cs)
        with "1.IH" have "length (replace_all ic re f (Some c) cs) \<le> length cs" by simp
        with e True f Cons show ?thesis by (subst replace_all.simps) simp
      qed
    next
      case False
      with s have "length rest < length s" by (cases m) auto
      with "1.IH" have "length (replace_all ic re f (Some (last m)) rest) \<le> length rest" by simp
      with e False b s show ?thesis by (subst replace_all.simps) simp
    qed
  qed
qed

lemma replace_all_length_less:
  assumes bound: "\<And>prv s m rest caps.
      exec_at ic re prv s = Some (m, rest, caps) \<Longrightarrow> length (f m caps) < length m"
  shows "find_match ic re prv s pos = Some x \<Longrightarrow> length (replace_all ic re f prv s) < length s"
proof (induction s arbitrary: prv pos)
  case Nil
  then obtain m rest caps where e: "exec_at ic re prv [] = Some (m, rest, caps)"
    by (auto split: option.splits)
  from exec_at_append [OF e] bound [OF e] show ?case by simp
next
  case (Cons c cs)
  have le: "\<And>prv s. length (replace_all ic re f prv s) \<le> length s"
    by (rule replace_all_length_le) (use bound in \<open>simp add: less_imp_le\<close>)
  show ?case
  proof (cases "exec_at ic re prv (c # cs)")
    case None
    with Cons.prems have "find_match ic re (Some c) cs (Suc pos) = Some x" by simp
    from Cons.IH [OF this] None show ?thesis by (subst replace_all.simps) simp
  next
    case (Some y)
    obtain m rest caps where y: "y = (m, rest, caps)" by (cases y) auto
    from Some y have e: "exec_at ic re prv (c # cs) = Some (m, rest, caps)" by simp
    from bound [OF e] have b: "length (f m caps) < length m" .
    then have ne: "m \<noteq> []" by auto
    from exec_at_append [OF e] have s: "c # cs = m @ rest" .
    then have "length (c # cs) = length m + length rest" by (metis length_append)
    with le [of "Some (last m)" rest] b e ne show ?thesis
      by (subst replace_all.simps) simp
  qed
qed

lemma exec_at_nonempty_lit:
  assumes "exec_at ic re prv s = Some (m, rest, caps)" and "Lit (c # l) \<in> set re"
  shows "m \<noteq> []"
  using exec_at_lit [OF assms] by auto

lemma remove_all_length_le: "length (remove_all ic re s) \<le> length s"
  unfolding remove_all_def by (rule replace_all_length_le) simp

text \<open>
  Removing the matches of a pattern that matches no empty text leaves a text as it is, or
  as long as it is, exactly when the pattern matches nowhere in it.
\<close>

lemma remove_all_length_iff:
  assumes "Lit (c # l) \<in> set re"
  shows "(length (remove_all ic re s) = length s) = (\<not> matches ic re s)"
proof
  assume len: "length (remove_all ic re s) = length s"
  show "\<not> matches ic re s"
  proof
    assume "matches ic re s"
    then obtain x where x: "find_match ic re None s 0 = Some x" by (auto simp: matches_iff)
    have "length (replace_all ic re (\<lambda>m caps. []) None s) < length s"
      by (rule replace_all_length_less [OF _ x]) (use exec_at_nonempty_lit [OF _ assms] in auto)
    with len show False by (simp add: remove_all_def)
  qed
next
  assume "\<not> matches ic re s"
  then have "find_match ic re None s 0 = None" unfolding matches_iff by blast
  from replace_all_no_match [OF this] show "length (remove_all ic re s) = length s"
    by (simp add: remove_all_def)
qed

lemma remove_all_fixed_iff:
  assumes "Lit (c # l) \<in> set re"
  shows "(remove_all ic re s = s) = (\<not> matches ic re s)"
proof
  assume "remove_all ic re s = s"
  then have "length (remove_all ic re s) = length s" by simp
  with remove_all_length_iff [OF assms] show "\<not> matches ic re s" by simp
next
  assume "\<not> matches ic re s"
  then have "find_match ic re None s 0 = None" unfolding matches_iff by blast
  from replace_all_no_match [OF this] show "remove_all ic re s = s"
    by (simp add: remove_all_def)
qed

lemma length_trim_le: "length (trim s) \<le> length s"
proof -
  have "length (trim s) \<le> length (rev (dropWhile is_space s))"
    unfolding trim_def length_rev [of "dropWhile is_space (rev (dropWhile is_space s))"]
    by (rule length_dropWhile_le)
  also have "\<dots> \<le> length s" unfolding length_rev by (rule length_dropWhile_le)
  finally show ?thesis .
qed

lemma dropWhile_same_length: "length (dropWhile P xs) = length xs \<Longrightarrow> dropWhile P xs = xs"
  by (metis append_self_conv2 length_0_conv length_append takeWhile_dropWhile_id
      add_cancel_right_left)

lemma trim_same_length:
  assumes "length (trim s) = length s"
  shows "trim s = s"
proof -
  have a: "length (trim s) \<le> length (dropWhile is_space s)"
    unfolding trim_def length_rev using length_dropWhile_le [of is_space "rev (dropWhile is_space s)"]
    by simp
  have b: "length (dropWhile is_space s) \<le> length s" by (rule length_dropWhile_le)
  from a b assms have 1: "length (dropWhile is_space s) = length s" by simp
  then have d: "dropWhile is_space s = s" by (rule dropWhile_same_length)
  from assms have "length (dropWhile is_space (rev s)) = length (rev s)"
    unfolding trim_def d by simp
  then have "dropWhile is_space (rev s) = rev s" by (rule dropWhile_same_length)
  then show ?thesis unfolding trim_def d by simp
qed

section \<open>The shape of a match\<close>

text \<open>What one atom consumes, and what it does to the captures.\<close>

lemma m_seq_Cons_mem:
  "(acc', rest', caps') \<in> set (m_seq ic prv (a # as) s) \<Longrightarrow>
     \<exists>a1 r1 c1. (a1, r1, c1) \<in> set (m_atom ic prv a s)
       \<and> (acc', rest', caps') \<in> set (m_seq ic prv as (a1, r1, c1))"
  by auto

lemma m_seq_Nil_mem: "(acc', rest', caps') \<in> set (m_seq ic prv [] s) \<Longrightarrow> s = (acc', rest', caps')"
  by simp

lemma lit_mem:
  assumes "(acc', rest', caps') \<in> set (lit ic l (acc, rest, caps))"
  shows "\<exists>x. acc' = rev x @ acc \<and> rest = x @ rest' \<and> caps' = caps
    \<and> map (canon ic) x = map (canon ic) l"
proof -
  from assms have "caps' = caps" by (auto simp: lit_def split: option.splits)
  with lit_ext [OF assms] show ?thesis by blast
qed

lemma star_mem:
  "(acc', rest', caps') \<in> set (star ic k acc rest caps) \<Longrightarrow>
     \<exists>x. acc' = rev x @ acc \<and> rest = x @ rest' \<and> caps' = caps \<and> (\<forall>c \<in> set x. in_class ic k c)"
proof (induction ic k acc rest caps rule: star.induct)
  case (1 ic k acc caps)
  then show ?case by simp
next
  case (2 ic k acc c cs caps)
  from "2.prems" consider
    (more) "in_class ic k c" "(acc', rest', caps') \<in> set (star ic k (c # acc) cs caps)"
    | (stop) "acc' = acc" "rest' = c # cs" "caps' = caps"
    by (auto split: if_splits)
  then show ?case
  proof cases
    case more
    with "2.IH" obtain x where "acc' = rev x @ c # acc" and "cs = x @ rest'" and "caps' = caps"
      and "\<forall>d \<in> set x. in_class ic k d" by blast
    with more(1) have "acc' = rev (c # x) @ acc \<and> c # cs = (c # x) @ rest' \<and> caps' = caps
      \<and> (\<forall>d \<in> set (c # x). in_class ic k d)" by simp
    then show ?thesis by blast
  next
    case stop
    then show ?thesis by simp
  qed
qed

lemma plus_mem:
  assumes "(acc', rest', caps') \<in> set (m_atom ic prv (Plus k) (acc, rest, caps))"
  shows "\<exists>x. x \<noteq> [] \<and> acc' = rev x @ acc \<and> rest = x @ rest' \<and> caps' = caps
    \<and> (\<forall>c \<in> set x. in_class ic k c)"
proof (cases rest)
  case Nil
  with assms show ?thesis by simp
next
  case (Cons c cs)
  with assms have c: "in_class ic k c" and "(acc', rest', caps') \<in> set (star ic k (c # acc) cs caps)"
    by (auto split: if_splits)
  from star_mem [OF this(2)] obtain x where "acc' = rev x @ c # acc" and "cs = x @ rest'"
    and "caps' = caps" and "\<forall>d \<in> set x. in_class ic k d" by blast
  with c Cons have "c # x \<noteq> [] \<and> acc' = rev (c # x) @ acc \<and> rest = (c # x) @ rest' \<and> caps' = caps
      \<and> (\<forall>d \<in> set (c # x). in_class ic k d)" by simp
  then show ?thesis by blast
qed

lemma alt_mem:
  assumes "(acc', rest', caps') \<in> set (m_atom ic prv (Alt ls) (acc, rest, caps))"
  shows "\<exists>x. acc' = rev x @ acc \<and> rest = x @ rest' \<and> caps' = caps
    \<and> map (canon ic) x \<in> set (map (map (canon ic)) ls)"
proof -
  from assms obtain l where l: "l \<in> set ls"
    and "(acc', rest', caps') \<in> set (lit ic l (acc, rest, caps))" by auto
  from lit_mem [OF this(2)] l show ?thesis by auto
qed

lemma one_mem:
  assumes "(acc', rest', caps') \<in> set (m_atom ic prv (One k) (acc, rest, caps))"
  shows "\<exists>c. in_class ic k c \<and> acc' = c # acc \<and> rest = c # rest' \<and> caps' = caps"
  using assms by (cases rest) (auto split: if_splits)

lemma group_mem:
  assumes "(acc', rest', caps') \<in> set (m_atom ic prv (Group a) (acc, rest, caps))"
  shows "\<exists>x caps0. (acc', rest', caps0) \<in> set (m_atom ic prv a (acc, rest, caps))
    \<and> acc' = rev x @ acc \<and> rest = x @ rest' \<and> caps' = caps0 @ [x]"
proof -
  from assms obtain caps0 where
    inner: "(acc', rest', caps0) \<in> set (m_atom ic prv a (acc, rest, caps))"
    and c: "caps' = caps0 @ [rev (take (length acc' - length acc) acc')]"
    by auto
  from m_atom_ext [OF inner] obtain x where x: "acc' = rev x @ acc" "rest = x @ rest'" by blast
  from x(1) have "rev (take (length acc' - length acc) acc') = x" by simp
  with inner c x show ?thesis by blast
qed

text \<open>A quote is below the letters: only the quote itself matches it.\<close>

lemma code_quotes: "code (CHR 0x27) < 65" "code (CHR 0x22) < 65"
  by (simp_all add: code_def)

text \<open>
  A match of the pattern for URLs: the attribute name, white space around \<^verbatim>\<open>=\<close>, and a
  value between two quotes that is not empty and holds no such quote. The captures are
  the name and the value.
\<close>

text \<open>\<open>attr_name a\<close>: the text \<open>a\<close> is \<^verbatim>\<open>href\<close> or \<^verbatim>\<open>src\<close>, in any case of the letters.\<close>

definition attr_name :: "string \<Rightarrow> bool" where
  "attr_name a = (map (canon True) a = map (canon True) ''href''
     \<or> map (canon True) a = map (canon True) ''src'')"

lemma urlRegex_shape:
  assumes e: "exec_at True (urlRegex q) prv s = Some (m, rest, caps)" and q: "code q < 65"
  shows "\<exists>a sp1 sp2 u. m = a @ sp1 @ ''='' @ sp2 @ [q] @ u @ [q] \<and> caps = [a, u]
    \<and> attr_name a
    \<and> (\<forall>c \<in> set sp1. is_space c) \<and> (\<forall>c \<in> set sp2. is_space c)
    \<and> u \<noteq> [] \<and> q \<notin> set u"
proof -
  from exec_at_mem [OF e]
  have k0: "(rev m, rest, caps) \<in> set (m_seq True prv
      [Group (Alt [''href'', ''src'']), Star Space, Lit ''='', Star Space, Lit [q],
       Group (Plus (Except [q])), Lit [q]] ([], s, []))"
    unfolding urlRegex_def .
  from m_seq_Cons_mem [OF k0] obtain a1 r1 c1 where
    m1: "(a1, r1, c1) \<in> set (m_atom True prv (Group (Alt [''href'', ''src''])) ([], s, []))" and
    k1: "(rev m, rest, caps) \<in> set (m_seq True prv
      [Star Space, Lit ''='', Star Space, Lit [q], Group (Plus (Except [q])), Lit [q]] (a1, r1, c1))"
    by blast
  from group_mem [OF m1] obtain a c0 where
    g1: "(a1, r1, c0) \<in> set (m_atom True prv (Alt [''href'', ''src'']) ([], s, []))"
    and a1: "a1 = rev a" and c1: "c1 = c0 @ [a]" by auto
  from alt_mem [OF g1] a1 have c0: "c0 = []"
    and "map (canon True) a \<in> {map (canon True) ''href'', map (canon True) ''src''}"
    by auto
  then have a: "attr_name a" unfolding attr_name_def by blast
  from m_seq_Cons_mem [OF k1] obtain a2 r2 c2 where
    m2: "(a2, r2, c2) \<in> set (m_atom True prv (Star Space) (a1, r1, c1))" and
    k2: "(rev m, rest, caps) \<in> set (m_seq True prv
      [Lit ''='', Star Space, Lit [q], Group (Plus (Except [q])), Lit [q]] (a2, r2, c2))"
    by blast
  from m2 have "(a2, r2, c2) \<in> set (star True Space a1 r1 c1)" by simp
  from star_mem [OF this] obtain sp1 where
    sp1: "a2 = rev sp1 @ a1" "c2 = c1" "\<forall>c \<in> set sp1. is_space c" by auto
  from m_seq_Cons_mem [OF k2] obtain a3 r3 c3 where
    m3: "(a3, r3, c3) \<in> set (m_atom True prv (Lit ''='') (a2, r2, c2))" and
    k3: "(rev m, rest, caps) \<in> set (m_seq True prv
      [Star Space, Lit [q], Group (Plus (Except [q])), Lit [q]] (a3, r3, c3))"
    by blast
  from m3 have "(a3, r3, c3) \<in> set (lit True ''='' (a2, r2, c2))" by simp
  from lit_mem [OF this] obtain x3 where
    x3: "a3 = rev x3 @ a2" "c3 = c2" "map (canon True) x3 = map (canon True) ''=''" by auto
  from x3(3) obtain d where d: "x3 = [d]" "canon True d = canon True CHR ''=''"
    by (cases x3) auto
  from canon_below_letters [OF code_eq d(2)] d(1) have x3_eq: "x3 = ''=''" by simp
  from m_seq_Cons_mem [OF k3] obtain a4 r4 c4 where
    m4: "(a4, r4, c4) \<in> set (m_atom True prv (Star Space) (a3, r3, c3))" and
    k4: "(rev m, rest, caps) \<in> set (m_seq True prv
      [Lit [q], Group (Plus (Except [q])), Lit [q]] (a4, r4, c4))"
    by blast
  from m4 have "(a4, r4, c4) \<in> set (star True Space a3 r3 c3)" by simp
  from star_mem [OF this] obtain sp2 where
    sp2: "a4 = rev sp2 @ a3" "c4 = c3" "\<forall>c \<in> set sp2. is_space c" by auto
  from m_seq_Cons_mem [OF k4] obtain a5 r5 c5 where
    m5: "(a5, r5, c5) \<in> set (m_atom True prv (Lit [q]) (a4, r4, c4))" and
    k5: "(rev m, rest, caps) \<in> set (m_seq True prv
      [Group (Plus (Except [q])), Lit [q]] (a5, r5, c5))"
    by blast
  from m5 have "(a5, r5, c5) \<in> set (lit True [q] (a4, r4, c4))" by simp
  from lit_mem [OF this] obtain x5 where
    x5: "a5 = rev x5 @ a4" "c5 = c4" "map (canon True) x5 = map (canon True) [q]" by auto
  from x5(3) obtain d5 where d5: "x5 = [d5]" "canon True d5 = canon True q"
    by (cases x5) auto
  from canon_below_letters [OF q d5(2)] d5(1) have x5_eq: "x5 = [q]" by simp
  from m_seq_Cons_mem [OF k5] obtain a6 r6 c6 where
    m6: "(a6, r6, c6) \<in> set (m_atom True prv (Group (Plus (Except [q]))) (a5, r5, c5))" and
    k6: "(rev m, rest, caps) \<in> set (m_seq True prv [Lit [q]] (a6, r6, c6))"
    by blast
  from group_mem [OF m6] obtain u c60 where
    g6: "(a6, r6, c60) \<in> set (m_atom True prv (Plus (Except [q])) (a5, r5, c5))"
    and a6: "a6 = rev u @ a5" and c6: "c6 = c60 @ [u]" by auto
  from plus_mem [OF g6] a6 have u: "u \<noteq> []" "c60 = c5" "\<forall>c \<in> set u. in_class True (Except [q]) c"
    by auto
  have qu: "q \<notin> set u"
  proof
    assume "q \<in> set u"
    with u(3) have "in_class True (Except [q]) q" by blast
    then show False by simp
  qed
  from m_seq_Cons_mem [OF k6] obtain a7 r7 c7 where
    m7: "(a7, r7, c7) \<in> set (m_atom True prv (Lit [q]) (a6, r6, c6))" and
    k7: "(rev m, rest, caps) \<in> set (m_seq True prv [] (a7, r7, c7))"
    by blast
  from m_seq_Nil_mem [OF k7] m7 have "(rev m, rest, caps) \<in> set (lit True [q] (a6, r6, c6))"
    by simp
  from lit_mem [OF this] obtain x7 where
    x7: "rev m = rev x7 @ a6" "caps = c6" "map (canon True) x7 = map (canon True) [q]" by auto
  from x7(3) obtain d7 where d7: "x7 = [d7]" "canon True d7 = canon True q"
    by (cases x7) auto
  from canon_below_letters [OF q d7(2)] d7(1) have x7_eq: "x7 = [q]" by simp
  have "rev m = rev (a @ sp1 @ ''='' @ sp2 @ [q] @ u @ [q])"
    using x7(1) x7_eq a6 x5(1) x5_eq sp2(1) x3(1) x3_eq sp1(1) a1 by simp
  then have "m = a @ sp1 @ ''='' @ sp2 @ [q] @ u @ [q]" by (simp only: rev_is_rev_conv)
  moreover have "caps = [a, u]"
    using x7(2) c6 u(2) x5(2) sp2(2) x3(2) sp1(2) c1 c0 by simp
  ultimately show ?thesis using a sp1(3) sp2(3) u(1) qu by blast
qed

section \<open>The cleanup of empty tags\<close>

text \<open>A name of word characters: letters, digits and the underscore, at least one.\<close>

definition word_name :: "string \<Rightarrow> bool" where
  "word_name t = (t \<noteq> [] \<and> (\<forall>c \<in> set t. is_word c))"

text \<open>The first of the possible matches, which is the one that counts.\<close>

definition first_is :: "'a list \<Rightarrow> 'a \<Rightarrow> bool" where
  "first_is xs r = (case xs of [] \<Rightarrow> False | x # _ \<Rightarrow> x = r)"

lemma first_is_Cons [simp]: "first_is (x # xs) r = (x = r)"
  by (simp add: first_is_def)

lemma first_is_append: "first_is xs r \<Longrightarrow> first_is (xs @ ys) r"
  by (cases xs) (simp_all add: first_is_def)

lemma star_first:
  "(\<forall>c \<in> set xs. in_class ic k c) \<Longrightarrow> (rest = [] \<or> \<not> in_class ic k (hd rest)) \<Longrightarrow>
     first_is (star ic k acc (xs @ rest) caps) (rev xs @ acc, rest, caps)"
proof (induction xs arbitrary: acc)
  case Nil
  then show ?case by (cases rest) auto
next
  case (Cons x xs)
  from Cons.IH [of "x # acc"] Cons.prems
  have "first_is (star ic k (x # acc) (xs @ rest) caps) (rev xs @ x # acc, rest, caps)" by auto
  with Cons.prems show ?case by (simp add: first_is_append)
qed

lemma lit_rest_self: "lit_rest ic l (l @ rest) = Some rest"
  by (induction l) auto

lemma lit_self: "lit ic l (acc, l @ rest, caps) = [(rev l @ acc, rest, caps)]"
  by (simp add: lit_def lit_rest_self)

lemma m_seq_first:
  "first_is (m_atom ic prv a s) s1 \<Longrightarrow> first_is (m_seq ic prv re s1) r \<Longrightarrow>
     first_is (m_seq ic prv (a # re) s) r"
  by (cases "m_atom ic prv a s") (auto simp: first_is_def split: list.splits)

lemma exec_at_first:
  "first_is (m_seq ic prv re ([], s, [])) (acc, rest, caps) \<Longrightarrow>
     exec_at ic re prv s = Some (rev acc, rest, caps)"
  by (auto simp: exec_at_def first_is_def split: list.splits)

lemma not_gt_in_class:
  "c \<noteq> CHR ''>'' \<Longrightarrow> in_class ic (Except ''>'') c"
  using canon_below_letters [of "CHR ''>''" ic c] by (auto simp: code_def)

lemma gt_not_in_class: "\<not> in_class ic (Except ''>'') CHR ''>''"
  by simp

lemma not_space_lt: "\<not> is_space CHR ''<''" and not_word_gt: "\<not> is_word CHR ''>''"
  by code_simp+

lemma close_first:
  "first_is (m_seq True prv [Lit ''</'', BackRef 1, Lit ''>'']
      (acc, ''</'' @ name @ ''>'' @ post, [name]))
    (''>'' @ rev name @ ''/<'' @ acc, post, [name])"
proof -
  let ?end = "(''>'' @ rev name @ ''/<'' @ acc, post, [name])"
  have s8: "first_is (m_seq True prv [] ?end) ?end" by simp
  have "first_is (m_atom True prv (Lit ''>'') (rev name @ ''/<'' @ acc, ''>'' @ post, [name])) ?end"
    using lit_self [of True "''>''" "rev name @ ''/<'' @ acc" post "[name]"] by simp
  from m_seq_first [OF this s8]
  have s7: "first_is (m_seq True prv [Lit ''>''] (rev name @ ''/<'' @ acc, ''>'' @ post, [name])) ?end" .
  have b: "m_atom True prv (BackRef 1) (''/<'' @ acc, name @ ''>'' @ post, [name])
      = lit True name (''/<'' @ acc, name @ ''>'' @ post, [name])"
    by simp
  have "first_is (m_atom True prv (BackRef 1) (''/<'' @ acc, name @ ''>'' @ post, [name]))
      (rev name @ ''/<'' @ acc, ''>'' @ post, [name])"
    using lit_self [of True name "''/<'' @ acc" "''>'' @ post" "[name]"] by (simp add: b)
  from m_seq_first [OF this s7]
  have s6: "first_is (m_seq True prv [BackRef 1, Lit ''>'']
      (''/<'' @ acc, name @ ''>'' @ post, [name])) ?end" .
  have "first_is (m_atom True prv (Lit ''</'') (acc, ''</'' @ name @ ''>'' @ post, [name]))
      (rev ''</'' @ acc, name @ ''>'' @ post, [name])"
    using lit_self [of True "''</''" acc "name @ ''>'' @ post" "[name]"] by simp
  then have "first_is (m_atom True prv (Lit ''</'') (acc, ''</'' @ name @ ''>'' @ post, [name]))
      (''/<'' @ acc, name @ ''>'' @ post, [name])"
    by simp
  from m_seq_first [OF this s6] show ?thesis .
qed

lemma body_first:
  assumes ws: "\<forall>c \<in> set ws. is_space c"
  shows "first_is (m_seq True prv [Lit ''>'', Star Space, Lit ''</'', BackRef 1, Lit ''>'']
      (acc, ''>'' @ ws @ ''</'' @ name @ ''>'' @ post, [name]))
    (''>'' @ rev name @ ''/<'' @ rev ws @ ''>'' @ acc, post, [name])"
proof -
  let ?rest = "''</'' @ name @ ''>'' @ post"
  from ws have "\<forall>c \<in> set ws. in_class True Space c" by simp
  moreover have "?rest = [] \<or> \<not> in_class True Space (hd ?rest)"
    using not_space_lt by simp
  ultimately
  have "first_is (star True Space (''>'' @ acc) (ws @ ?rest) [name]) (rev ws @ ''>'' @ acc, ?rest, [name])"
    by (rule star_first)
  then have "first_is (m_atom True prv (Star Space) (''>'' @ acc, ws @ ?rest, [name]))
      (rev ws @ ''>'' @ acc, ?rest, [name])"
    by simp
  from m_seq_first [OF this close_first]
  have s4: "first_is (m_seq True prv [Star Space, Lit ''</'', BackRef 1, Lit ''>'']
      (''>'' @ acc, ws @ ?rest, [name]))
    (''>'' @ rev name @ ''/<'' @ rev ws @ ''>'' @ acc, post, [name])" .
  have "first_is (m_atom True prv (Lit ''>'') (acc, ''>'' @ ws @ ?rest, [name]))
      (''>'' @ acc, ws @ ?rest, [name])"
    using lit_self [of True "''>''" acc "ws @ ?rest" "[name]"] by simp
  from m_seq_first [OF this s4] show ?thesis .
qed

lemma attrs_first:
  assumes attrs: "CHR ''>'' \<notin> set attrs" and ws: "\<forall>c \<in> set ws. is_space c"
  shows "first_is (m_seq True prv
      [Star (Except ''>''), Lit ''>'', Star Space, Lit ''</'', BackRef 1, Lit ''>'']
      (acc, attrs @ ''>'' @ ws @ ''</'' @ name @ ''>'' @ post, [name]))
    (''>'' @ rev name @ ''/<'' @ rev ws @ ''>'' @ rev attrs @ acc, post, [name])"
proof -
  let ?rest = "''>'' @ ws @ ''</'' @ name @ ''>'' @ post"
  have "\<forall>c \<in> set attrs. in_class True (Except ''>'') c"
  proof
    fix c
    assume "c \<in> set attrs"
    with attrs have "c \<noteq> CHR ''>''" by auto
    then show "in_class True (Except ''>'') c" by (rule not_gt_in_class)
  qed
  moreover have "?rest = [] \<or> \<not> in_class True (Except ''>'') (hd ?rest)"
    using gt_not_in_class by simp
  ultimately
  have "first_is (star True (Except ''>'') acc (attrs @ ?rest) [name]) (rev attrs @ acc, ?rest, [name])"
    by (rule star_first)
  then have "first_is (m_atom True prv (Star (Except ''>'')) (acc, attrs @ ?rest, [name]))
      (rev attrs @ acc, ?rest, [name])"
    by simp
  from m_seq_first [OF this body_first [OF ws]] show ?thesis .
qed

lemma name_first:
  assumes name: "word_name name" and attrs: "attrs = [] \<or> \<not> is_word (hd attrs)"
  shows "first_is (m_atom True prv (Group (Plus Word)) (''<'', name @ attrs @ ''>'' @ rest, []))
    (rev name @ ''<'', attrs @ ''>'' @ rest, [name])"
proof -
  let ?r2 = "attrs @ ''>'' @ rest"
  from name obtain n ns where n: "name = n # ns" "is_word n" "\<forall>c \<in> set ns. is_word c"
    by (cases name) (auto simp: word_name_def)
  from n(3) have "\<forall>c \<in> set ns. in_class True Word c" by simp
  moreover have "?r2 = [] \<or> \<not> in_class True Word (hd ?r2)"
    using attrs not_word_gt by (cases attrs) auto
  ultimately
  have u1: "first_is (star True Word (n # ''<'') (ns @ ?r2) []) (rev ns @ n # ''<'', ?r2, [])"
    by (rule star_first)
  show ?thesis
  proof (cases "star True Word (n # ''<'') (ns @ ?r2) []")
    case Nil
    with u1 show ?thesis by (simp add: first_is_def)
  next
    case (Cons x xs)
    with u1 have x: "x = (rev ns @ n # ''<'', ?r2, [])" by simp
    have "m_atom True prv (Group (Plus Word)) (''<'', (n # ns) @ ?r2, [])
        = map (\<lambda>(acc', rest', caps').
                (acc', rest', caps' @ [rev (take (length acc' - length ''<'') acc')]))
            (star True Word (n # ''<'') (ns @ ?r2) [])"
      using n(2) by simp
    also have "\<dots> = (rev ns @ n # ''<'', ?r2, [n # ns])
        # map (\<lambda>(acc', rest', caps').
                (acc', rest', caps' @ [rev (take (length acc' - length ''<'') acc')])) xs"
      unfolding Cons x by simp
    finally show ?thesis using n(1) by simp
  qed
qed

text \<open>The pattern for empty tags matches an empty pair at the head of a text.\<close>

lemma exec_at_empty_pair:
  assumes name: "word_name name"
    and attrs: "attrs = [] \<or> \<not> is_word (hd attrs)" "CHR ''>'' \<notin> set attrs"
    and ws: "\<forall>c \<in> set ws. is_space c"
  shows "exec_at True emptyTagRegex prv
           (''<'' @ name @ attrs @ ''>'' @ ws @ ''</'' @ name @ ''>'' @ post)
         = Some (''<'' @ name @ attrs @ ''>'' @ ws @ ''</'' @ name @ ''>'', post, [name])"
proof -
  let ?r1 = "name @ attrs @ ''>'' @ ws @ ''</'' @ name @ ''>'' @ post"
  let ?end = "(''>'' @ rev name @ ''/<'' @ rev ws @ ''>'' @ rev attrs @ rev name @ ''<'', post, [name])"
  from m_seq_first [OF name_first [OF name attrs(1)] attrs_first [OF attrs(2) ws]]
  have s1: "first_is (m_seq True prv
      [Group (Plus Word), Star (Except ''>''), Lit ''>'', Star Space, Lit ''</'', BackRef 1, Lit ''>'']
      (''<'', ?r1, [])) ?end" .
  have "first_is (m_atom True prv (Lit ''<'') ([], ''<'' @ ?r1, [])) (''<'', ?r1, [])"
    using lit_self [of True "''<''" "[]" ?r1 "[]"] by simp
  from m_seq_first [OF this s1]
  have "first_is (m_seq True prv emptyTagRegex ([], ''<'' @ ?r1, [])) ?end"
    by (simp only: emptyTagRegex_def)
  from exec_at_first [OF this] show ?thesis by simp
qed

lemma exec_at_first_char:
  assumes "c \<noteq> p" and "code p < 65"
  shows "exec_at ic (Lit (p # ps) # re) prv (c # cs) = None"
proof -
  from canon_below_letters [OF assms(2), of ic c] assms(1) have "canon ic c \<noteq> canon ic p" by auto
  then show ?thesis by (simp add: exec_at_def lit_def)
qed

lemma replace_all_skip:
  assumes "CHR ''<'' \<notin> set pre"
  shows "replace_all ic (Lit ''<'' # re) f prv (pre @ s)
    = pre @ replace_all ic (Lit ''<'' # re) f (if pre = [] then prv else Some (last pre)) s"
  using assms
proof (induction pre arbitrary: prv)
  case Nil
  then show ?case by simp
next
  case (Cons a pre)
  from Cons.prems have a: "a \<noteq> CHR ''<''" and p: "CHR ''<'' \<notin> set pre" by auto
  from exec_at_first_char [OF a code_lt]
  have "exec_at ic (Lit ''<'' # re) prv (a # pre @ s) = None" .
  then have "replace_all ic (Lit ''<'' # re) f prv ((a # pre) @ s)
      = a # replace_all ic (Lit ''<'' # re) f (Some a) (pre @ s)"
    by (subst replace_all.simps) simp
  with Cons.IH [OF p, of "Some a"] show ?case by simp
qed

text \<open>
  An empty pair between two texts without tags is removed by the cleanup, and the two texts
  stay.
\<close>

lemma cleanupEmptyTags_pair:
  assumes name: "word_name name"
    and attrs: "attrs = [] \<or> \<not> is_word (hd attrs)" "CHR ''>'' \<notin> set attrs"
    and ws: "\<forall>c \<in> set ws. is_space c"
    and pre: "CHR ''<'' \<notin> set pre" and post: "CHR ''<'' \<notin> set post"
  shows "cleanupEmptyTags (pre @ ''<'' @ name @ attrs @ ''>'' @ ws @ ''</'' @ name @ ''>'' @ post)
    = pre @ post"
proof -
  let ?pair = "''<'' @ name @ attrs @ ''>'' @ ws @ ''</'' @ name @ ''>''"
  let ?f = "\<lambda>m caps. []"
  let ?prv = "if pre = [] then None else Some (last pre)"
  have e: "exec_at True emptyTagRegex ?prv (?pair @ post) = Some (?pair, post, [name])"
    using exec_at_empty_pair [OF name attrs ws, of ?prv post] by simp
  have "replace_all True emptyTagRegex ?f ?prv (?pair @ post)
      = replace_all True emptyTagRegex ?f (Some (last ?pair)) post"
    by (subst replace_all.simps) (simp only: e, simp)
  also have "\<dots> = post"
    using post by (simp add: emptyTagRegex_def replace_all_needs_char [of "''<''" _ "CHR ''<''"] code_lt)
  finally have "replace_all True emptyTagRegex ?f ?prv (?pair @ post) = post" .
  with replace_all_skip [OF pre, of True "tl emptyTagRegex" ?f None "?pair @ post"]
  have 1: "remove_all True emptyTagRegex (pre @ ?pair @ post) = pre @ post"
    by (simp add: remove_all_def emptyTagRegex_def)
  from pre post have "CHR ''<'' \<notin> set (pre @ post)" by simp
  then have 2: "remove_all True whitespaceTagRegex (pre @ post) = pre @ post"
    by (simp add: whitespaceTagRegex_def remove_all_needs_char [of "''<''" _ "CHR ''<''"] code_lt)
  from 1 2 show ?thesis by (simp add: cleanupEmptyTags_def)
qed

lemma canon_map_word:
  "map (canon ic) x = map (canon ic) t \<Longrightarrow> \<forall>c \<in> set t. is_word c \<Longrightarrow> \<forall>c \<in> set x. is_word c"
proof (induction x arbitrary: t)
  case Nil
  then show ?case by simp
next
  case (Cons a x)
  then obtain b t' where t: "t = b # t'" by (cases t) auto
  with Cons.prems have "canon ic a = canon ic b" and "map (canon ic) x = map (canon ic) t'"
    and "is_word b" and "\<forall>c \<in> set t'. is_word c"
    by auto
  with Cons.IH [of t'] canon_is_word [of ic a b] show ?case by simp
qed

text \<open>
  The patterns for a blocked element begin with \<^verbatim>\<open><\<close>, the name and \<^verbatim>\<open>\b\<close>. For a
  name of word characters they match only at a \<^verbatim>\<open><\<close> that is followed by a run of word
  characters equal to the name up to case.
\<close>

lemma exec_at_tag_run:
  assumes t: "word_name t"
    and e: "exec_at True (Lit ''<'' # Lit t # WordB # re) prv s = Some (m, rest, caps)"
  shows "\<exists>s'. s = CHR ''<'' # s' \<and> map (canon True) (takeWhile is_word s') = map (canon True) t"
proof -
  from exec_at_mem [OF e] obtain a1 r1 c1 a2 r2 c2 a3 r3 c3 where
    m1: "(a1, r1, c1) \<in> set (lit True ''<'' ([], s, []))" and
    m2: "(a2, r2, c2) \<in> set (lit True t (a1, r1, c1))" and
    m3: "(a3, r3, c3) \<in> set (m_atom True prv WordB (a2, r2, c2))"
    by fastforce
  from lit_ext [OF m1] obtain x1 where
    x1: "a1 = rev x1" "s = x1 @ r1" "map (canon True) x1 = map (canon True) ''<''"
    by auto
  from x1(3) obtain d where d: "x1 = [d]" "canon True d = canon True CHR ''<''"
    by (cases x1) auto
  from canon_below_letters [OF code_lt d(2)] have "d = CHR ''<''" .
  with d x1 have s: "s = CHR ''<'' # r1" and a1: "a1 = ''<''" by simp_all
  from lit_ext [OF m2] obtain x2 where
    x2: "a2 = rev x2 @ a1" "r1 = x2 @ r2" "map (canon True) x2 = map (canon True) t"
    by auto
  from t x2(3) have ne: "x2 \<noteq> []" by (auto simp: word_name_def)
  from t canon_map_word [OF x2(3)] have w: "\<forall>c \<in> set x2. is_word c"
    by (simp add: word_name_def)
  from ne obtain y ys where y: "rev x2 = y # ys" by (cases "rev x2") auto
  then have "y \<in> set x2" by (metis list.set_intros(1) set_rev)
  with w have "is_word y" by simp
  from m3 have "at_boundary prv a2 r2" by (auto split: if_splits)
  with x2(1) y \<open>is_word y\<close> have "r2 = [] \<or> \<not> is_word (hd r2)"
    by (cases r2) (auto simp: at_boundary_def)
  then have "takeWhile is_word r2 = []" by (cases r2) auto
  with w have "takeWhile is_word (x2 @ r2) = x2" by (simp add: takeWhile_append2)
  with s x2 show ?thesis by simp
qed

text \<open>The runs of word characters behind each \<^verbatim>\<open><\<close> of a text.\<close>

fun tag_runs :: "string \<Rightarrow> string list" where
  "tag_runs [] = []"
| "tag_runs (c # cs) = (if c = CHR ''<'' then [takeWhile is_word cs] else []) @ tag_runs cs"

lemma replace_all_no_run:
  assumes t: "word_name t"
  shows "map (canon True) t \<notin> set (map (map (canon True)) (tag_runs s)) \<Longrightarrow>
    replace_all True (Lit ''<'' # Lit t # WordB # re) f prv s = s"
proof (induction s arbitrary: prv)
  case Nil
  have "exec_at True (Lit ''<'' # Lit t # WordB # re) prv [] = None"
  proof (cases "exec_at True (Lit ''<'' # Lit t # WordB # re) prv []")
    case (Some x)
    then obtain m rest caps where
      "exec_at True (Lit ''<'' # Lit t # WordB # re) prv [] = Some (m, rest, caps)"
      by (cases x) auto
    from exec_at_tag_run [OF t this] show ?thesis by simp
  qed simp
  then show ?case by (subst replace_all.simps) simp
next
  case (Cons c cs)
  have "exec_at True (Lit ''<'' # Lit t # WordB # re) prv (c # cs) = None"
  proof (cases "exec_at True (Lit ''<'' # Lit t # WordB # re) prv (c # cs)")
    case (Some x)
    then obtain m rest caps where
      "exec_at True (Lit ''<'' # Lit t # WordB # re) prv (c # cs) = Some (m, rest, caps)"
      by (cases x) auto
    from exec_at_tag_run [OF t this] have "c = CHR ''<''"
      and "map (canon True) (takeWhile is_word cs) = map (canon True) t"
      by auto
    with Cons.prems show ?thesis by auto
  qed simp
  moreover from Cons.prems have "map (canon True) t \<notin> set (map (map (canon True)) (tag_runs cs))"
    by auto
  with Cons.IH have "replace_all True (Lit ''<'' # Lit t # WordB # re) f (Some c) cs = cs" by simp
  ultimately show ?case by (subst replace_all.simps) simp
qed

lemma remove_element_no_run:
  assumes "word_name t" and "map (canon True) t \<notin> set (map (map (canon True)) (tag_runs s))"
  shows "remove_element s t = s"
  using assms
  by (simp add: remove_element_def remove_all_def elementRegex_def selfClosingRegex_def
      replace_all_no_run)

text \<open>Two names that are equal up to case give the same patterns.\<close>

lemma lit_rest_cong:
  "map (canon ic) t = map (canon ic) t' \<Longrightarrow> lit_rest ic t rest = lit_rest ic t' rest"
proof (induction t arbitrary: t' rest)
  case Nil
  then show ?case by simp
next
  case (Cons a t)
  then obtain b u where t': "t' = b # u" by (cases t') auto
  with Cons.prems have ab: "canon ic a = canon ic b" and "map (canon ic) t = map (canon ic) u"
    by auto
  with Cons.IH have "\<And>r. lit_rest ic t r = lit_rest ic u r" by blast
  with ab t' show ?case by (cases rest) auto
qed

lemma lit_cong:
  assumes "map (canon ic) t = map (canon ic) t'"
  shows "lit ic t s = lit ic t' s"
proof -
  from assms have len: "length t = length t'" by (rule map_eq_imp_length_eq)
  show ?thesis unfolding lit_def len lit_rest_cong [OF assms] ..
qed

lemma m_seq_cong:
  assumes "\<And>s. m_atom ic prv a s = m_atom ic prv a' s"
    and "\<And>s. m_seq ic prv re s = m_seq ic prv re' s"
  shows "m_seq ic prv (a # re) s = m_seq ic prv (a' # re') s"
proof -
  from assms(2) have "m_seq ic prv re = m_seq ic prv re'" by (rule ext)
  with assms(1) show ?thesis by simp
qed

lemma lit_atom_cong:
  "map (canon ic) t = map (canon ic) t' \<Longrightarrow> m_atom ic prv (Lit t) s = m_atom ic prv (Lit t') s"
  by (simp add: lit_cong [of ic t t'])

lemma replace_all_cong:
  assumes "\<And>prv s. exec_at ic re prv s = exec_at ic re' prv s"
  shows "replace_all ic re f prv s = replace_all ic re' f prv s"
proof (induction s arbitrary: prv rule: length_induct)
  case (1 s)
  have L: "replace_all ic re f prv s =
     (case exec_at ic re prv s of
        None \<Rightarrow> (case s of [] \<Rightarrow> [] | c # cs \<Rightarrow> c # replace_all ic re f (Some c) cs)
      | Some (m, rest, caps) \<Rightarrow>
          if m = [] then
            f m caps @ (case s of [] \<Rightarrow> [] | c # cs \<Rightarrow> c # replace_all ic re f (Some c) cs)
          else f m caps @ replace_all ic re f (Some (last m)) rest)"
    by (rule replace_all.simps)
  have R: "replace_all ic re' f prv s =
     (case exec_at ic re prv s of
        None \<Rightarrow> (case s of [] \<Rightarrow> [] | c # cs \<Rightarrow> c # replace_all ic re' f (Some c) cs)
      | Some (m, rest, caps) \<Rightarrow>
          if m = [] then
            f m caps @ (case s of [] \<Rightarrow> [] | c # cs \<Rightarrow> c # replace_all ic re' f (Some c) cs)
          else f m caps @ replace_all ic re' f (Some (last m)) rest)"
    unfolding assms [of prv s] by (rule replace_all.simps)
  have tail: "\<And>c cs. s = c # cs \<Longrightarrow>
      replace_all ic re f (Some c) cs = replace_all ic re' f (Some c) cs"
    using "1.IH" by simp
  have after: "\<And>m rest caps. exec_at ic re prv s = Some (m, rest, caps) \<Longrightarrow> m \<noteq> [] \<Longrightarrow>
      replace_all ic re f (Some (last m)) rest = replace_all ic re' f (Some (last m)) rest"
    using "1.IH" exec_at_shorter by blast
  show ?case
  proof (cases "exec_at ic re prv s")
    case None
    then show ?thesis unfolding L R using tail by (cases s) simp_all
  next
    case (Some x)
    obtain m rest caps where x: "x = (m, rest, caps)" by (cases x) auto
    show ?thesis
    proof (cases "m = []")
      case True
      with Some x show ?thesis unfolding L R using tail by (cases s) simp_all
    next
      case False
      with Some x after [of m rest caps] show ?thesis unfolding L R by simp
    qed
  qed
qed

lemma remove_element_cong:
  assumes "map (canon True) t = map (canon True) t'"
  shows "remove_element s t = remove_element s t'"
proof -
  have "\<And>prv s. m_seq True prv (elementRegex t) s = m_seq True prv (elementRegex t') s"
    unfolding elementRegex_def by (intro m_seq_cong lit_atom_cong [OF assms] refl)
  then have 1: "\<And>prv s. exec_at True (elementRegex t) prv s = exec_at True (elementRegex t') prv s"
    by (simp add: exec_at_def)
  have "\<And>prv s. m_seq True prv (selfClosingRegex t) s = m_seq True prv (selfClosingRegex t') s"
    unfolding selfClosingRegex_def by (intro m_seq_cong lit_atom_cong [OF assms] refl)
  then have 2: "\<And>prv s. exec_at True (selfClosingRegex t) prv s = exec_at True (selfClosingRegex t') prv s"
    by (simp add: exec_at_def)
  show ?thesis
    by (simp add: remove_element_def remove_all_def replace_all_cong [OF 1] replace_all_cong [OF 2])
qed

section \<open>One quoted attribute in a text\<close>













text \<open>
  In a match of the pattern for URLs with the quote \<open>q'\<close>, the first quote of the text is
  \<open>q'\<close>.
\<close>

definition is_quote :: "char \<Rightarrow> bool" where
  "is_quote c = (c = CHR 0x27 \<or> c = CHR 0x22)"

lemma is_quote_code: "is_quote q \<Longrightarrow> code q < 65"
  by (auto simp: is_quote_def code_def)















section \<open>Policies whose names hold no pattern syntax\<close>

text \<open>
  \<open>plain_names P\<close>: no blocked element name and no blocked attribute name of \<open>P\<close> holds a
  syntax character of the pattern language. For such a policy \<^verbatim>\<open>sanitize\<close> raises nothing,
  and its two loops are folds of the replacements for one name.
\<close>

definition plain_names :: "SanitizerConfig \<Rightarrow> bool" where
  "plain_names P =
     ((case disallowedElements P of Some tags \<Rightarrow> list_all plain_name tags | None \<Rightarrow> True)
      \<and> (case disallowedAttributes P of Some attrs \<Rightarrow> list_all plain_name attrs | None \<Rightarrow> True))"

lemma remove_elements_plain:
  "list_all plain_name tags \<Longrightarrow> remove_elements pf s tags = Inr (foldl remove_element s tags)"
  by (induction tags arbitrary: s) (simp_all add: replace_named_def remove_element_def)

lemma remove_attributes_plain:
  "list_all plain_name attrs \<Longrightarrow>
     remove_attributes pf s attrs = Inr (foldl remove_attribute s attrs)"
  by (induction attrs arbitrary: s) (simp_all add: replace_named_def remove_attribute_def)

text \<open>The passes of \<^verbatim>\<open>sanitize\<close> before the check of the URLs, for such a policy.\<close>

definition removal_passes :: "SanitizerConfig \<Rightarrow> string \<Rightarrow> string" where
  "removal_passes P html =
     (let s1 = (if stripDoctype P = Some True then remove_all True doctypeRegex html else html);
          s2 = (if stripComments P = Some True then remove_all False commentRegex s1 else s1);
          s3 = (case disallowedElements P of
                  Some tags \<Rightarrow> foldl remove_element s2 tags
                | None \<Rightarrow> s2);
          s4 = (case disallowedAttributes P of
                  Some attrs \<Rightarrow> foldl remove_attribute s3 attrs
                | None \<Rightarrow> s3)
      in s4)"

lemma sanitize_string_plain:
  assumes "plain_names P"
  shows "sanitize_string pf P parse s
    = Inr (trim (cleanupEmptyTags (sanitizeUrls P parse (removal_passes P s))))"
  using assms
  by (simp add: sanitize_string_def removal_passes_def plain_names_def Let_def
      remove_elements_plain remove_attributes_plain split: option.splits)

section \<open>Texts that a pass leaves as they are\<close>

text \<open>A fold of steps that never make a text longer, and keep it when they keep its length.\<close>

lemma foldl_length_le:
  assumes "\<And>s t. length (g s t) \<le> length s"
  shows "length (foldl g s ts) \<le> length s"
proof (induction ts arbitrary: s)
  case Nil
  show ?case by simp
next
  case (Cons t ts)
  from Cons.IH [of "g s t"] assms [of s t] show ?case by simp
qed

lemma foldl_same_length:
  assumes le: "\<And>s t. length (g s t) \<le> length s"
    and same: "\<And>s t. length (g s t) = length s \<Longrightarrow> g s t = s"
  shows "length (foldl g s ts) = length s \<Longrightarrow> (\<forall>t \<in> set ts. g s t = s)"
proof (induction ts)
  case Nil
  show ?case by simp
next
  case (Cons t ts)
  from foldl_length_le [of g "g s t" ts] le have "length (foldl g (g s t) ts) \<le> length (g s t)"
    by blast
  with Cons.prems le [of s t] have "length (g s t) = length s" by simp
  from same [OF this] have g: "g s t = s" .
  with Cons.prems have "length (foldl g s ts) = length s" by simp
  from Cons.IH [OF this] g show ?case by simp
qed

lemma foldl_fixed: "(\<forall>t \<in> set ts. g s t = s) \<Longrightarrow> foldl g s ts = s"
  by (induction ts) simp_all

text \<open>Two removals, one after the other.\<close>

lemma two_removals_same_length:
  assumes e: "Lit (c # l) \<in> set re1" and d: "Lit (c' # l') \<in> set re2"
  shows "(length (remove_all ic2 re2 (remove_all ic1 re1 s)) = length s)
    = (\<not> matches ic1 re1 s \<and> \<not> matches ic2 re2 s)"
proof
  let ?s1 = "remove_all ic1 re1 s"
  assume len: "length (remove_all ic2 re2 ?s1) = length s"
  with remove_all_length_le [of ic2 re2 ?s1] remove_all_length_le [of ic1 re1 s]
  have 1: "length ?s1 = length s" and 2: "length (remove_all ic2 re2 ?s1) = length ?s1"
    by simp_all
  from 1 remove_all_length_iff [OF e] have m1: "\<not> matches ic1 re1 s" by blast
  with remove_all_fixed_iff [OF e] have "?s1 = s" by blast
  with 2 have "length (remove_all ic2 re2 s) = length s" by simp
  with remove_all_length_iff [OF d] have "\<not> matches ic2 re2 s" by blast
  with m1 show "\<not> matches ic1 re1 s \<and> \<not> matches ic2 re2 s" ..
next
  assume "\<not> matches ic1 re1 s \<and> \<not> matches ic2 re2 s"
  with remove_all_fixed_iff [OF e] remove_all_fixed_iff [OF d]
  have "remove_all ic1 re1 s = s" and "remove_all ic2 re2 s = s" by blast+
  then show "length (remove_all ic2 re2 (remove_all ic1 re1 s)) = length s" by simp
qed

lemma two_removals_fixed:
  assumes e: "Lit (c # l) \<in> set re1" and d: "Lit (c' # l') \<in> set re2"
  shows "(remove_all ic2 re2 (remove_all ic1 re1 s) = s)
    = (\<not> matches ic1 re1 s \<and> \<not> matches ic2 re2 s)"
proof
  assume "remove_all ic2 re2 (remove_all ic1 re1 s) = s"
  then have "length (remove_all ic2 re2 (remove_all ic1 re1 s)) = length s" by simp
  with two_removals_same_length [OF e d] show "\<not> matches ic1 re1 s \<and> \<not> matches ic2 re2 s"
    by blast
next
  assume "\<not> matches ic1 re1 s \<and> \<not> matches ic2 re2 s"
  with remove_all_fixed_iff [OF e] remove_all_fixed_iff [OF d]
  have "remove_all ic1 re1 s = s" and "remove_all ic2 re2 s = s" by blast+
  then show "remove_all ic2 re2 (remove_all ic1 re1 s) = s" by simp
qed

lemma two_removals_length_le: "length (remove_all ic2 re2 (remove_all ic1 re1 s)) \<le> length s"
  using remove_all_length_le [of ic2 re2 "remove_all ic1 re1 s"] remove_all_length_le [of ic1 re1 s]
  by simp

text \<open>The replacements for one element name, for one attribute name, and the cleanup.\<close>

lemma element_lits:
  "Lit ''<'' \<in> set (elementRegex t)" "Lit ''<'' \<in> set (selfClosingRegex t)"
  by (simp_all add: elementRegex_def selfClosingRegex_def)

lemma attribute_lits:
  "Lit ''='' \<in> set (singleQuoteRegex a)" "Lit ''='' \<in> set (doubleQuoteRegex a)"
  by (simp_all add: singleQuoteRegex_def doubleQuoteRegex_def)

lemma cleanup_lits: "Lit ''<'' \<in> set emptyTagRegex" "Lit ''<'' \<in> set whitespaceTagRegex"
  by (simp_all add: emptyTagRegex_def whitespaceTagRegex_def)

lemma remove_element_length_le: "length (remove_element s t) \<le> length s"
  unfolding remove_element_def by (rule two_removals_length_le)

lemma remove_element_same_length:
  "(length (remove_element s t) = length s)
    = (\<not> matches True (elementRegex t) s \<and> \<not> matches True (selfClosingRegex t) s)"
  unfolding remove_element_def by (rule two_removals_same_length [OF element_lits])

lemma remove_element_fixed:
  "(remove_element s t = s)
    = (\<not> matches True (elementRegex t) s \<and> \<not> matches True (selfClosingRegex t) s)"
  unfolding remove_element_def by (rule two_removals_fixed [OF element_lits])

lemma remove_attribute_length_le: "length (remove_attribute s a) \<le> length s"
  unfolding remove_attribute_def by (rule two_removals_length_le)

lemma remove_attribute_same_length:
  "(length (remove_attribute s a) = length s)
    = (\<not> matches True (singleQuoteRegex a) s \<and> \<not> matches True (doubleQuoteRegex a) s)"
  unfolding remove_attribute_def by (rule two_removals_same_length [OF attribute_lits])

lemma remove_attribute_fixed:
  "(remove_attribute s a = s)
    = (\<not> matches True (singleQuoteRegex a) s \<and> \<not> matches True (doubleQuoteRegex a) s)"
  unfolding remove_attribute_def by (rule two_removals_fixed [OF attribute_lits])

lemma cleanupEmptyTags_length_le: "length (cleanupEmptyTags s) \<le> length s"
  unfolding cleanupEmptyTags_def Let_def by (rule two_removals_length_le)

lemma cleanupEmptyTags_same_length:
  "(length (cleanupEmptyTags s) = length s)
    = (\<not> matches True emptyTagRegex s \<and> \<not> matches True whitespaceTagRegex s)"
  unfolding cleanupEmptyTags_def Let_def by (rule two_removals_same_length [OF cleanup_lits])

lemma cleanupEmptyTags_fixed:
  "(cleanupEmptyTags s = s)
    = (\<not> matches True emptyTagRegex s \<and> \<not> matches True whitespaceTagRegex s)"
  unfolding cleanupEmptyTags_def Let_def by (rule two_removals_fixed [OF cleanup_lits])

text \<open>The check of the URLs never makes a text longer.\<close>

lemma url_callback_length:
  assumes "exec_at True (urlRegex q) prv s = Some (m, rest, caps)" and "is_quote q"
  shows "length (url_callback config parse m caps) \<le> length m"
proof -
  from urlRegex_shape [OF assms(1) is_quote_code [OF assms(2)]] obtain a sp1 sp2 u where
    m: "m = a @ sp1 @ ''='' @ sp2 @ [q] @ u @ [q]" and caps: "caps = [a, u]" and u: "u \<noteq> []"
    by blast
  from u have "1 \<le> length u" by (cases u) simp_all
  with m have "length (hash_attr a) \<le> length m" by (simp add: hash_attr_def)
  moreover have "url_callback config parse m caps = m \<or> url_callback config parse m caps = hash_attr a"
    unfolding caps by (simp add: url_callback_def split: option.splits)
  ultimately show ?thesis by auto
qed

lemma sanitizeUrls_length_le: "length (sanitizeUrls config parse s) \<le> length s"
proof -
  let ?f = "url_callback config parse"
  have q: "is_quote (CHR 0x27)" "is_quote (CHR 0x22)" by (simp_all add: is_quote_def)
  have 1: "length (replace_all True (urlRegex (CHR 0x27)) ?f None s) \<le> length s"
    by (rule replace_all_length_le) (rule url_callback_length [OF _ q(1)])
  have 2: "length (replace_all True (urlRegex (CHR 0x22)) ?f None
      (replace_all True (urlRegex (CHR 0x27)) ?f None s))
    \<le> length (replace_all True (urlRegex (CHR 0x27)) ?f None s)"
    by (rule replace_all_length_le) (rule url_callback_length [OF _ q(2)])
  from 1 2 show ?thesis by (simp add: sanitizeUrls_def Let_def)
qed

lemma removal_passes_length_le: "length (removal_passes P s) \<le> length s"
proof -
  define s1 where "s1 = (if stripDoctype P = Some True then remove_all True doctypeRegex s else s)"
  define s2 where "s2 = (if stripComments P = Some True then remove_all False commentRegex s1 else s1)"
  define s3 where "s3 = (case disallowedElements P of
      Some tags \<Rightarrow> foldl remove_element s2 tags | None \<Rightarrow> s2)"
  define s4 where "s4 = (case disallowedAttributes P of
      Some attrs \<Rightarrow> foldl remove_attribute s3 attrs | None \<Rightarrow> s3)"
  have 1: "length s1 \<le> length s"
    unfolding s1_def using remove_all_length_le [of True doctypeRegex s] by simp
  have 2: "length s2 \<le> length s1"
    unfolding s2_def using remove_all_length_le [of False commentRegex s1] by simp
  have 3: "length s3 \<le> length s2"
    unfolding s3_def using foldl_length_le [of remove_element s2, OF remove_element_length_le]
    by (simp split: option.splits)
  have 4: "length s4 \<le> length s3"
    unfolding s4_def using foldl_length_le [of remove_attribute s3, OF remove_attribute_length_le]
    by (simp split: option.splits)
  have "removal_passes P s = s4"
    by (simp only: removal_passes_def Let_def s1_def s2_def s3_def s4_def)
  with 1 2 3 4 show ?thesis by simp
qed

lemma sanitize_plain:
  assumes "plain_names P"
  shows "sanitize pf P parse (JString s)
    = Inr (trim (cleanupEmptyTags (sanitizeUrls P parse (removal_passes P s))))"
proof (cases "s = []")
  case False
  with sanitize_string_plain [OF assms] show ?thesis by (simp add: sanitize_def)
next
  case True
  let ?r = "trim (cleanupEmptyTags (sanitizeUrls P parse (removal_passes P [])))"
  from length_trim_le [of "cleanupEmptyTags (sanitizeUrls P parse (removal_passes P []))"]
    cleanupEmptyTags_length_le [of "sanitizeUrls P parse (removal_passes P [])"]
    sanitizeUrls_length_le [of P parse "removal_passes P []"]
    removal_passes_length_le [of P "[]"]
  have "length ?r \<le> 0" by simp
  then have "?r = []" by simp
  with True show ?thesis by (simp add: sanitize_def)
qed

text \<open>
  A match of the pattern for dangerous URLs is longer than what replaces it: it holds the
  attribute name, the \<^verbatim>\<open>=\<close>, two quotes and the scheme.
\<close>

lemma dangerousUrlRegex_shape:
  assumes e: "exec_at True (dangerousUrlRegex scheme) prv s = Some (m, rest, caps)"
  shows "\<exists>a. caps = [a] \<and> length a + 3 + length scheme \<le> length m"
proof -
  let ?Q = "OneOf [CHR 0x22, CHR 0x27]"
  let ?N = "Except [CHR 0x22, CHR 0x27]"
  from exec_at_mem [OF e]
  have k0: "(rev m, rest, caps) \<in> set (m_seq True prv
      [Group (Alt [''href'', ''src'']), Star Space, Lit ''='', Star Space, One ?Q, Lit scheme,
       Star ?N, One ?Q] ([], s, []))"
    unfolding dangerousUrlRegex_def .
  from m_seq_Cons_mem [OF k0] obtain a1 r1 c1 where
    m1: "(a1, r1, c1) \<in> set (m_atom True prv (Group (Alt [''href'', ''src''])) ([], s, []))" and
    k1: "(rev m, rest, caps) \<in> set (m_seq True prv
      [Star Space, Lit ''='', Star Space, One ?Q, Lit scheme, Star ?N, One ?Q] (a1, r1, c1))"
    by blast
  from group_mem [OF m1] obtain a c0 where
    g1: "(a1, r1, c0) \<in> set (m_atom True prv (Alt [''href'', ''src'']) ([], s, []))"
    and a1: "a1 = rev a" and c1: "c1 = c0 @ [a]" by auto
  from alt_mem [OF g1] have c0: "c0 = []" by auto
  from m_seq_Cons_mem [OF k1] obtain a2 r2 c2 where
    m2: "(a2, r2, c2) \<in> set (m_atom True prv (Star Space) (a1, r1, c1))" and
    k2: "(rev m, rest, caps) \<in> set (m_seq True prv
      [Lit ''='', Star Space, One ?Q, Lit scheme, Star ?N, One ?Q] (a2, r2, c2))"
    by blast
  from m2 have "(a2, r2, c2) \<in> set (star True Space a1 r1 c1)" by simp
  from star_mem [OF this] obtain x2 where x2: "a2 = rev x2 @ a1" "c2 = c1" by auto
  from m_seq_Cons_mem [OF k2] obtain a3 r3 c3 where
    m3: "(a3, r3, c3) \<in> set (m_atom True prv (Lit ''='') (a2, r2, c2))" and
    k3: "(rev m, rest, caps) \<in> set (m_seq True prv
      [Star Space, One ?Q, Lit scheme, Star ?N, One ?Q] (a3, r3, c3))"
    by blast
  from m3 have "(a3, r3, c3) \<in> set (lit True ''='' (a2, r2, c2))" by simp
  from lit_mem [OF this] obtain x3 where
    x3: "a3 = rev x3 @ a2" "c3 = c2" "map (canon True) x3 = map (canon True) ''=''" by auto
  from x3(3) have l3: "length x3 = 1" by (auto dest: map_eq_imp_length_eq)
  from m_seq_Cons_mem [OF k3] obtain a4 r4 c4 where
    m4: "(a4, r4, c4) \<in> set (m_atom True prv (Star Space) (a3, r3, c3))" and
    k4: "(rev m, rest, caps) \<in> set (m_seq True prv
      [One ?Q, Lit scheme, Star ?N, One ?Q] (a4, r4, c4))"
    by blast
  from m4 have "(a4, r4, c4) \<in> set (star True Space a3 r3 c3)" by simp
  from star_mem [OF this] obtain x4 where x4: "a4 = rev x4 @ a3" "c4 = c3" by auto
  from m_seq_Cons_mem [OF k4] obtain a5 r5 c5 where
    m5: "(a5, r5, c5) \<in> set (m_atom True prv (One ?Q) (a4, r4, c4))" and
    k5: "(rev m, rest, caps) \<in> set (m_seq True prv [Lit scheme, Star ?N, One ?Q] (a5, r5, c5))"
    by blast
  from one_mem [OF m5] obtain d5 where x5: "a5 = d5 # a4" "c5 = c4" by auto
  from m_seq_Cons_mem [OF k5] obtain a6 r6 c6 where
    m6: "(a6, r6, c6) \<in> set (m_atom True prv (Lit scheme) (a5, r5, c5))" and
    k6: "(rev m, rest, caps) \<in> set (m_seq True prv [Star ?N, One ?Q] (a6, r6, c6))"
    by blast
  from m6 have "(a6, r6, c6) \<in> set (lit True scheme (a5, r5, c5))" by simp
  from lit_mem [OF this] obtain x6 where
    x6: "a6 = rev x6 @ a5" "c6 = c5" "map (canon True) x6 = map (canon True) scheme" by auto
  from x6(3) have l6: "length x6 = length scheme" by (auto dest: map_eq_imp_length_eq)
  from m_seq_Cons_mem [OF k6] obtain a7 r7 c7 where
    m7: "(a7, r7, c7) \<in> set (m_atom True prv (Star ?N) (a6, r6, c6))" and
    k7: "(rev m, rest, caps) \<in> set (m_seq True prv [One ?Q] (a7, r7, c7))"
    by blast
  from m7 have "(a7, r7, c7) \<in> set (star True ?N a6 r6 c6)" by simp
  from star_mem [OF this] obtain x7 where x7: "a7 = rev x7 @ a6" "c7 = c6" by auto
  from m_seq_Cons_mem [OF k7] obtain a8 r8 c8 where
    m8: "(a8, r8, c8) \<in> set (m_atom True prv (One ?Q) (a7, r7, c7))" and
    k8: "(rev m, rest, caps) \<in> set (m_seq True prv [] (a8, r8, c8))"
    by blast
  from one_mem [OF m8] obtain d8 where x8: "a8 = d8 # a7" "c8 = c7" by auto
  from m_seq_Nil_mem [OF k8] have "rev m = a8" and "caps = c8" by simp_all
  with x8 x7 x6(1,2) x5 x4 x3(1,2) x2 a1 c1 c0
  have "rev m = d8 # rev x7 @ rev x6 @ d5 # rev x4 @ rev x3 @ rev x2 @ rev a" and "caps = [a]"
    by simp_all
  from this(1) have "length (rev m) = length (d8 # rev x7 @ rev x6 @ d5 # rev x4 @ rev x3 @ rev x2 @ rev a)"
    by (rule arg_cong)
  with l3 l6 have "length a + 3 + length scheme \<le> length m" by simp
  with \<open>caps = [a]\<close> show ?thesis by blast
qed

lemma dollar1_hash_shorter:
  assumes "exec_at True (dangerousUrlRegex scheme) prv s = Some (m, rest, caps)"
    and "2 \<le> length scheme"
  shows "length (dollar1_hash m caps) < length m"
proof -
  from dangerousUrlRegex_shape [OF assms(1)] obtain a where
    "caps = [a]" and "length a + 3 + length scheme \<le> length m" by blast
  with assms(2) show ?thesis by (simp add: dollar1_hash_def hash_attr_def)
qed

text \<open>Replacing by something shorter changes a text exactly when there is a match.\<close>

lemma replace_all_same_length_iff:
  assumes bound: "\<And>prv s m rest caps.
      exec_at ic re prv s = Some (m, rest, caps) \<Longrightarrow> length (f m caps) < length m"
  shows "(length (replace_all ic re f None s) = length s) = (\<not> matches ic re s)"
proof
  assume len: "length (replace_all ic re f None s) = length s"
  show "\<not> matches ic re s"
  proof
    assume "matches ic re s"
    then obtain x where x: "find_match ic re None s 0 = Some x" by (auto simp: matches_iff)
    have "length (replace_all ic re f None s) < length s"
      by (rule replace_all_length_less [OF bound x])
    with len show False by simp
  qed
next
  assume "\<not> matches ic re s"
  then have "find_match ic re None s 0 = None" unfolding matches_iff by blast
  from replace_all_no_match [OF this] show "length (replace_all ic re f None s) = length s"
    by simp
qed

lemma replace_all_fixed_if:
  "\<not> matches ic re s \<Longrightarrow> replace_all ic re f None s = s"
proof -
  assume "\<not> matches ic re s"
  then have "find_match ic re None s 0 = None" unfolding matches_iff by blast
  from replace_all_no_match [OF this] show ?thesis .
qed

section \<open>The texts that sanitizing leaves as they are\<close>

text \<open>
  \<open>holds_blocked P s\<close>: the text \<open>s\<close> holds a match of a pattern that the removal passes
  of \<^verbatim>\<open>sanitize\<close> apply under the policy \<open>P\<close>: the doctype, a comment, a blocked element or a
  blocked attribute. \<open>holds_removable P s\<close>: it holds such a match, or an empty pair of
  tags, which the cleanup removes.
\<close>

definition holds_blocked :: "SanitizerConfig \<Rightarrow> string \<Rightarrow> bool" where
  "holds_blocked P s =
     ((stripDoctype P = Some True \<and> matches True doctypeRegex s)
      \<or> (stripComments P = Some True \<and> matches False commentRegex s)
      \<or> (case disallowedElements P of
            Some tags \<Rightarrow>
              list_ex (\<lambda>tag. matches True (elementRegex tag) s
                         \<or> matches True (selfClosingRegex tag) s) tags
          | None \<Rightarrow> False)
      \<or> (case disallowedAttributes P of
            Some attrs \<Rightarrow>
              list_ex (\<lambda>attr. matches True (singleQuoteRegex attr) s
                          \<or> matches True (doubleQuoteRegex attr) s) attrs
          | None \<Rightarrow> False))"

definition holds_removable :: "SanitizerConfig \<Rightarrow> string \<Rightarrow> bool" where
  "holds_removable P s =
     (holds_blocked P s \<or> matches True emptyTagRegex s \<or> matches True whitespaceTagRegex s)"

lemma removal_passes_same_length:
  assumes "length (removal_passes P y) = length y"
  shows "\<not> holds_blocked P y"
proof -
  define s1 where "s1 = (if stripDoctype P = Some True then remove_all True doctypeRegex y else y)"
  define s2 where "s2 = (if stripComments P = Some True then remove_all False commentRegex s1 else s1)"
  define s3 where "s3 = (case disallowedElements P of
      Some tags \<Rightarrow> foldl remove_element s2 tags | None \<Rightarrow> s2)"
  define s4 where "s4 = (case disallowedAttributes P of
      Some attrs \<Rightarrow> foldl remove_attribute s3 attrs | None \<Rightarrow> s3)"
  have l1: "length s1 \<le> length y"
    unfolding s1_def using remove_all_length_le [of True doctypeRegex y] by simp
  have l2: "length s2 \<le> length s1"
    unfolding s2_def using remove_all_length_le [of False commentRegex s1] by simp
  have l3: "length s3 \<le> length s2"
    unfolding s3_def using foldl_length_le [of remove_element s2, OF remove_element_length_le]
    by (simp split: option.splits)
  have l4: "length s4 \<le> length s3"
    unfolding s4_def using foldl_length_le [of remove_attribute s3, OF remove_attribute_length_le]
    by (simp split: option.splits)
  have "removal_passes P y = s4"
    by (simp only: removal_passes_def Let_def s1_def s2_def s3_def s4_def)
  with assms l1 l2 l3 l4
  have e1: "length s1 = length y" and e2: "length s2 = length s1"
    and e3: "length s3 = length s2" and e4: "length s4 = length s3" by simp_all
  have dl: "Lit ''<!DOCTYPE'' \<in> set doctypeRegex" and cl: "Lit ''<!--'' \<in> set commentRegex"
    by (simp_all add: doctypeRegex_def commentRegex_def)
  have d: "stripDoctype P = Some True \<longrightarrow> \<not> matches True doctypeRegex y"
    using e1 remove_all_length_iff [OF dl, of True y] by (auto simp: s1_def split: if_splits)
  then have y1: "s1 = y"
    using remove_all_fixed_iff [OF dl, of True y] by (auto simp: s1_def)
  have c: "stripComments P = Some True \<longrightarrow> \<not> matches False commentRegex y"
    using e2 remove_all_length_iff [OF cl, of False y] by (auto simp: s2_def y1 split: if_splits)
  then have y2: "s2 = y"
    using remove_all_fixed_iff [OF cl, of False y] by (auto simp: s2_def y1)
  have el: "\<forall>t \<in> set tags. remove_element y t = y" if "disallowedElements P = Some tags" for tags
  proof (rule foldl_same_length [of remove_element])
    show "length (remove_element s t) \<le> length s" for s t by (rule remove_element_length_le)
    show "remove_element s t = s" if "length (remove_element s t) = length s" for s t
      using that by (simp add: remove_element_same_length remove_element_fixed)
    from e3 that show "length (foldl remove_element y tags) = length y" by (simp add: s3_def y2)
  qed
  then have y3: "s3 = y"
    by (auto simp: s3_def y2 foldl_fixed split: option.splits)
  have at: "\<forall>a \<in> set attrs. remove_attribute y a = y" if "disallowedAttributes P = Some attrs" for attrs
  proof (rule foldl_same_length [of remove_attribute])
    show "length (remove_attribute s t) \<le> length s" for s t by (rule remove_attribute_length_le)
    show "remove_attribute s t = s" if "length (remove_attribute s t) = length s" for s t
      using that by (simp add: remove_attribute_same_length remove_attribute_fixed)
    from e4 that show "length (foldl remove_attribute y attrs) = length y" by (simp add: s4_def y3)
  qed
  from d c el at show ?thesis
    unfolding holds_blocked_def list_ex_iff remove_element_fixed remove_attribute_fixed
    by (auto split: option.splits)
qed

lemma removal_passes_fixed:
  assumes "\<not> holds_blocked P y"
  shows "removal_passes P y = y"
proof -
  have dl: "Lit ''<!DOCTYPE'' \<in> set doctypeRegex" and cl: "Lit ''<!--'' \<in> set commentRegex"
    by (simp_all add: doctypeRegex_def commentRegex_def)
  from assms have d: "stripDoctype P = Some True \<longrightarrow> remove_all True doctypeRegex y = y"
    unfolding holds_blocked_def remove_all_fixed_iff [OF dl] by blast
  from assms have c: "stripComments P = Some True \<longrightarrow> remove_all False commentRegex y = y"
    unfolding holds_blocked_def remove_all_fixed_iff [OF cl] by blast
  from assms have el: "foldl remove_element y tags = y" if "disallowedElements P = Some tags" for tags
    using that unfolding holds_blocked_def list_ex_iff
    by (intro foldl_fixed) (auto simp: remove_element_fixed)
  from assms have at: "foldl remove_attribute y attrs = y"
    if "disallowedAttributes P = Some attrs" for attrs
    using that unfolding holds_blocked_def list_ex_iff
    by (intro foldl_fixed) (auto simp: remove_attribute_fixed)
  from d c el at show ?thesis
    by (auto simp: removal_passes_def Let_def split: option.splits)
qed

text \<open>
  For a policy with plain names, \<^verbatim>\<open>sanitize\<close> returns a text as it is exactly when the text
  holds no match of a pattern that is removed, the check of the URLs leaves it as it is,
  and there is no white space at its ends.
\<close>

lemma sanitize_fixed_iff:
  assumes P: "plain_names P"
  shows "(sanitize pf P parse (JString y) = Inr y)
    = (\<not> holds_removable P y \<and> sanitizeUrls P parse y = y \<and> trim y = y)"
proof
  let ?r = "removal_passes P y"
  let ?w = "sanitizeUrls P parse ?r"
  let ?c = "cleanupEmptyTags ?w"
  assume "sanitize pf P parse (JString y) = Inr y"
  with sanitize_plain [OF P] have t: "trim ?c = y" by simp
  from t length_trim_le [of ?c] cleanupEmptyTags_length_le [of ?w]
    sanitizeUrls_length_le [of P parse ?r] removal_passes_length_le [of P y]
  have e: "length ?r = length y" "length ?w = length ?r" "length ?c = length ?w"
    "length (trim ?c) = length ?c"
    by simp_all
  from removal_passes_same_length [OF e(1)] have nb: "\<not> holds_blocked P y" .
  from removal_passes_fixed [OF nb] have r: "?r = y" .
  from e(3) have nc: "\<not> matches True emptyTagRegex ?w \<and> \<not> matches True whitespaceTagRegex ?w"
    using cleanupEmptyTags_same_length [of ?w] by blast
  then have c: "?c = ?w" using cleanupEmptyTags_fixed [of ?w] by blast
  from trim_same_length [OF e(4)] t c r have w: "sanitizeUrls P parse y = y" by simp
  with nc r have "\<not> matches True emptyTagRegex y \<and> \<not> matches True whitespaceTagRegex y" by simp
  moreover from trim_same_length [OF e(4)] t have "trim y = y" by simp
  ultimately show "\<not> holds_removable P y \<and> sanitizeUrls P parse y = y \<and> trim y = y"
    using nb w by (simp add: holds_removable_def)
next
  assume a: "\<not> holds_removable P y \<and> sanitizeUrls P parse y = y \<and> trim y = y"
  then have "\<not> holds_blocked P y" by (simp add: holds_removable_def)
  from removal_passes_fixed [OF this] have r: "removal_passes P y = y" .
  from a have "\<not> matches True emptyTagRegex y \<and> \<not> matches True whitespaceTagRegex y"
    by (simp add: holds_removable_def)
  then have "cleanupEmptyTags y = y" using cleanupEmptyTags_fixed [of y] by blast
  with a r sanitize_plain [OF P, of pf parse y] show "sanitize pf P parse (JString y) = Inr y"
    by simp
qed

text \<open>The same for \<^verbatim>\<open>removeUnsafe\<close>, whose patterns are fixed.\<close>

definition holds_unsafe :: "string \<Rightarrow> bool" where
  "holds_unsafe s =
     (list_ex (\<lambda>tag. matches True (elementRegex tag) s
                 \<or> matches True (selfClosingRegex tag) s) unsafeElements
      \<or> list_ex (\<lambda>attr. matches True (singleQuoteRegex attr) s
                    \<or> matches True (doubleQuoteRegex attr) s) unsafeAttributes
      \<or> matches True (dangerousUrlRegex ''javascript:'') s
      \<or> matches True (dangerousUrlRegex ''data:'') s)"

lemma dangerous_length_le:
  "length (replace_all True (dangerousUrlRegex scheme) dollar1_hash None s) \<le> length s"
  if "2 \<le> length scheme"
  by (rule replace_all_length_le) (use dollar1_hash_shorter [OF _ that] in \<open>simp add: less_imp_le\<close>)

lemma removeUnsafe_string_fixed_iff:
  "(removeUnsafe_string z = z) = (\<not> holds_unsafe z \<and> trim z = z)"
proof
  define s1 where "s1 = foldl remove_element z unsafeElements"
  define s2 where "s2 = foldl remove_attribute s1 unsafeAttributes"
  define s3 where "s3 = replace_all True (dangerousUrlRegex ''javascript:'') dollar1_hash None s2"
  define s4 where "s4 = replace_all True (dangerousUrlRegex ''data:'') dollar1_hash None s3"
  have r: "removeUnsafe_string z = trim s4"
    by (simp only: removeUnsafe_string_def Let_def s1_def s2_def s3_def s4_def)
  have js: "2 \<le> length ''javascript:''" and dt: "2 \<le> length ''data:''" by simp_all
  have l1: "length s1 \<le> length z"
    unfolding s1_def by (rule foldl_length_le [OF remove_element_length_le])
  have l2: "length s2 \<le> length s1"
    unfolding s2_def by (rule foldl_length_le [OF remove_attribute_length_le])
  have l3: "length s3 \<le> length s2" unfolding s3_def by (rule dangerous_length_le [OF js])
  have l4: "length s4 \<le> length s3" unfolding s4_def by (rule dangerous_length_le [OF dt])
  assume "removeUnsafe_string z = z"
  with r have t: "trim s4 = z" by simp
  with length_trim_le [of s4] l1 l2 l3 l4
  have e: "length s1 = length z" "length s2 = length s1" "length s3 = length s2"
    "length s4 = length s3" "length (trim s4) = length s4"
    by simp_all
  have el: "\<forall>t \<in> set unsafeElements. remove_element z t = z"
  proof (rule foldl_same_length [of remove_element])
    show "length (remove_element s t) \<le> length s" for s t by (rule remove_element_length_le)
    show "remove_element s t = s" if "length (remove_element s t) = length s" for s t
      using that by (simp add: remove_element_same_length remove_element_fixed)
    from e(1) show "length (foldl remove_element z unsafeElements) = length z" by (simp add: s1_def)
  qed
  then have y1: "s1 = z" by (simp add: s1_def foldl_fixed)
  have at: "\<forall>a \<in> set unsafeAttributes. remove_attribute z a = z"
  proof (rule foldl_same_length [of remove_attribute])
    show "length (remove_attribute s t) \<le> length s" for s t by (rule remove_attribute_length_le)
    show "remove_attribute s t = s" if "length (remove_attribute s t) = length s" for s t
      using that by (simp add: remove_attribute_same_length remove_attribute_fixed)
    from e(2) show "length (foldl remove_attribute z unsafeAttributes) = length z"
      by (simp add: s2_def y1)
  qed
  then have y2: "s2 = z" by (simp add: s2_def y1 foldl_fixed)
  from e(3) have m3: "\<not> matches True (dangerousUrlRegex ''javascript:'') z"
    unfolding s3_def y2
    by (subst (asm) replace_all_same_length_iff) (rule dollar1_hash_shorter [OF _ js])
  then have y3: "s3 = z" by (simp add: s3_def y2 replace_all_fixed_if)
  from e(4) have m4: "\<not> matches True (dangerousUrlRegex ''data:'') z"
    unfolding s4_def y3
    by (subst (asm) replace_all_same_length_iff) (rule dollar1_hash_shorter [OF _ dt])
  then have y4: "s4 = z" by (simp add: s4_def y3 replace_all_fixed_if)
  from trim_same_length [OF e(5)] y4 have "trim z = z" by simp
  with el at m3 m4 show "\<not> holds_unsafe z \<and> trim z = z"
    unfolding holds_unsafe_def list_ex_iff remove_element_fixed remove_attribute_fixed by blast
next
  assume a: "\<not> holds_unsafe z \<and> trim z = z"
  then have "foldl remove_element z unsafeElements = z"
    unfolding holds_unsafe_def list_ex_iff
    by (intro foldl_fixed) (auto simp: remove_element_fixed)
  moreover from a have "foldl remove_attribute z unsafeAttributes = z"
    unfolding holds_unsafe_def list_ex_iff
    by (intro foldl_fixed) (auto simp: remove_attribute_fixed)
  moreover from a have "replace_all True (dangerousUrlRegex ''javascript:'') dollar1_hash None z = z"
    and "replace_all True (dangerousUrlRegex ''data:'') dollar1_hash None z = z"
    by (simp_all add: holds_unsafe_def replace_all_fixed_if)
  ultimately show "removeUnsafe_string z = z"
    using a by (simp add: removeUnsafe_string_def Let_def)
qed

section \<open>Writing to a sink\<close>

text \<open>
  C2. For every element, every string \<open>input\<close> and every options value, \<^verbatim>\<open>setHTML\<close>
  assigns to \<^verbatim>\<open>innerHTML\<close> exactly what \<^verbatim>\<open>removeUnsafe\<close> returns for \<open>input\<close>, whatever
  the options are. \<^verbatim>\<open>setHTMLUnsafe\<close> assigns exactly what \<^verbatim>\<open>sanitize\<close> returns for \<open>input\<close>
  under the sanitizer that the options resolve to, and raises what \<^verbatim>\<open>sanitize\<close> raises:
  the sanitizer is \<^verbatim>\<open>new Sanitizer()\<close> when there are no options, no \<^verbatim>\<open>sanitizer\<close> field or
  the field \<^verbatim>\<open>"default"\<close>, the given instance for an instance, and
  \<^verbatim>\<open>new Sanitizer(config)\<close> for a configuration record. The two methods of
  \<^verbatim>\<open>ShadowRootProcessor\<close> do the same with the content that \<^verbatim>\<open>getHTML\<close> reads, with the
  processor's own sanitizer in place of \<^verbatim>\<open>new Sanitizer()\<close>.
\<close>

theorem setHTML_writes_removeUnsafe:
  "(\<exists>r. removeUnsafe (JString input) = Inr r
        \<and> setHTML (Some el) (JString input) options = Inr (Some (el\<lparr>innerHTML := r\<rparr>))
        \<and> (\<exists>this'. shadow_setHTML this (JString input) options = Inr this' \<and> getHTML this' = r))
   \<and> setHTMLUnsafe pf parse (Some el) (JString input) None
       = map_sum id (\<lambda>h. Some (el\<lparr>innerHTML := h\<rparr>))
           (sanitize pf (new_Sanitizer None) parse (JString input))
   \<and> setHTMLUnsafe pf parse (Some el) (JString input) (Some \<lparr>sanitizer = None\<rparr>)
       = map_sum id (\<lambda>h. Some (el\<lparr>innerHTML := h\<rparr>))
           (sanitize pf (new_Sanitizer None) parse (JString input))
   \<and> setHTMLUnsafe pf parse (Some el) (JString input) (Some \<lparr>sanitizer = Some Default_string\<rparr>)
       = map_sum id (\<lambda>h. Some (el\<lparr>innerHTML := h\<rparr>))
           (sanitize pf (new_Sanitizer None) parse (JString input))
   \<and> setHTMLUnsafe pf parse (Some el) (JString input) (Some \<lparr>sanitizer = Some (Instance s)\<rparr>)
       = map_sum id (\<lambda>h. Some (el\<lparr>innerHTML := h\<rparr>)) (sanitize pf s parse (JString input))
   \<and> setHTMLUnsafe pf parse (Some el) (JString input) (Some \<lparr>sanitizer = Some (Config c)\<rparr>)
       = map_sum id (\<lambda>h. Some (el\<lparr>innerHTML := h\<rparr>))
           (sanitize pf (new_Sanitizer (Some c)) parse (JString input))
   \<and> map_sum id getHTML (shadow_setHTMLUnsafe pf parse this (JString input) None)
       = sanitize pf (own_sanitizer this) parse (JString input)
   \<and> map_sum id getHTML
         (shadow_setHTMLUnsafe pf parse this (JString input) (Some \<lparr>sanitizer = None\<rparr>))
       = sanitize pf (own_sanitizer this) parse (JString input)
   \<and> map_sum id getHTML
         (shadow_setHTMLUnsafe pf parse this (JString input) (Some \<lparr>sanitizer = Some Default_string\<rparr>))
       = sanitize pf (own_sanitizer this) parse (JString input)
   \<and> map_sum id getHTML
         (shadow_setHTMLUnsafe pf parse this (JString input) (Some \<lparr>sanitizer = Some (Instance s)\<rparr>))
       = sanitize pf s parse (JString input)
   \<and> map_sum id getHTML
         (shadow_setHTMLUnsafe pf parse this (JString input) (Some \<lparr>sanitizer = Some (Config c)\<rparr>))
       = sanitize pf (new_Sanitizer (Some c)) parse (JString input)"
  by (simp add: setHTML_def setHTMLUnsafe_def shadow_setHTML_def shadow_setHTMLUnsafe_def
      removeUnsafe_def getHTML_def choose_sanitizer_def split: sum.splits)

lemma removeUnsafe_string_example:
  "removeUnsafe_string ''<b>hi</b><script>x</script>'' = ''<b>hi</b>''"
  by code_simp

lemma sanitize_example:
  "sanitize pf default_sanitizer url_protocol (JString ''<b>hi</b><script>x</script>'')
     = Inr ''<b>hi</b>''"
  "sanitize pf (new_Sanitizer (Some (empty_config\<lparr>removeElements := Some [''b'']\<rparr>))) url_protocol
     (JString ''<b>hi</b><script>x</script>'') = Inr ''<script>x</script>''"
  by code_simp+

theorem setHTML_writes_removeUnsafe_witness:
  "\<forall>pf.
     setHTML (Some \<lparr>innerHTML = ''old''\<rparr>) (JString ''<b>hi</b><script>x</script>'')
       (Some \<lparr>sanitizer = Some (Config (empty_config\<lparr>removeElements := Some [''b'']\<rparr>))\<rparr>)
     = Inr (Some \<lparr>innerHTML = ''<b>hi</b>''\<rparr>)
   \<and> setHTMLUnsafe pf url_protocol (Some \<lparr>innerHTML = ''old''\<rparr>)
        (JString ''<b>hi</b><script>x</script>'') None
     = Inr (Some \<lparr>innerHTML = ''<b>hi</b>''\<rparr>)
   \<and> setHTMLUnsafe pf url_protocol (Some \<lparr>innerHTML = ''old''\<rparr>)
        (JString ''<b>hi</b><script>x</script>'')
        (Some \<lparr>sanitizer = Some (Config (empty_config\<lparr>removeElements := Some [''b'']\<rparr>))\<rparr>)
     = Inr (Some \<lparr>innerHTML = ''<script>x</script>''\<rparr>)"
proof
  fix pf
  from setHTML_writes_removeUnsafe [of "''<b>hi</b><script>x</script>''"
      "\<lparr>innerHTML = ''old''\<rparr>"
      "Some \<lparr>sanitizer = Some (Config (empty_config\<lparr>removeElements := Some [''b'']\<rparr>))\<rparr>"
      "new_ShadowRootProcessor None" pf url_protocol default_sanitizer
      "empty_config\<lparr>removeElements := Some [''b'']\<rparr>"]
    removeUnsafe_string_example sanitize_example [of pf]
  show "setHTML (Some \<lparr>innerHTML = ''old''\<rparr>) (JString ''<b>hi</b><script>x</script>'')
       (Some \<lparr>sanitizer = Some (Config (empty_config\<lparr>removeElements := Some [''b'']\<rparr>))\<rparr>)
     = Inr (Some \<lparr>innerHTML = ''<b>hi</b>''\<rparr>)
   \<and> setHTMLUnsafe pf url_protocol (Some \<lparr>innerHTML = ''old''\<rparr>)
        (JString ''<b>hi</b><script>x</script>'') None
     = Inr (Some \<lparr>innerHTML = ''<b>hi</b>''\<rparr>)
   \<and> setHTMLUnsafe pf url_protocol (Some \<lparr>innerHTML = ''old''\<rparr>)
        (JString ''<b>hi</b><script>x</script>'')
        (Some \<lparr>sanitizer = Some (Config (empty_config\<lparr>removeElements := Some [''b'']\<rparr>))\<rparr>)
     = Inr (Some \<lparr>innerHTML = ''<script>x</script>''\<rparr>)"
    by (simp add: removeUnsafe_def default_sanitizer_def)
qed

section \<open>The construction of the configuration\<close>

lemma new_Sanitizer_disallowedElements:
  "disallowedElements (new_Sanitizer (Some config)) =
     (case removeElements config of
        Some r \<Rightarrow> Some r
      | None \<Rightarrow>
          (case disallowedElements config of
             Some d \<Rightarrow> Some d
           | None \<Rightarrow> disallowedElements DEFAULT_SANITIZER_CONFIG))"
  by (simp add: new_Sanitizer_def Let_def spread_def or_else_def normalizeConfig_def
      DEFAULT_SANITIZER_CONFIG_def split: option.splits)

text \<open>
  C4. The constructor says that it preserves the user's \<^verbatim>\<open>disallowedElements\<close> and
  \<^verbatim>\<open>removeElements\<close>, and it does put the legacy \<^verbatim>\<open>disallowedElements\<close> back after the
  spread; but the next statement overwrites the same field with \<^verbatim>\<open>removeElements\<close>. For the
  configuration record with \<^verbatim>\<open>removeElements: ["em"]\<close> and
  \<^verbatim>\<open>disallowedElements: ["strong"]\<close> the blocked elements of the sanitizer are \<^verbatim>\<open>["em"]\<close>,
  not the legacy value: \<^verbatim>\<open>strong\<close> is allowed and stays in the text, \<^verbatim>\<open>em\<close> is refused and
  goes. With the legacy list alone, the blocked elements are \<^verbatim>\<open>["strong"]\<close>.
\<close>

theorem legacy_blocklist_overwritten:
  "disallowedElements (new_Sanitizer (Some (empty_config
       \<lparr>removeElements := Some [''em''], disallowedElements := Some [''strong'']\<rparr>)))
     = Some [''em'']
   \<and> isElementAllowed (new_Sanitizer (Some (empty_config
       \<lparr>removeElements := Some [''em''], disallowedElements := Some [''strong'']\<rparr>))) ''strong''
   \<and> \<not> isElementAllowed (new_Sanitizer (Some (empty_config
       \<lparr>removeElements := Some [''em''], disallowedElements := Some [''strong'']\<rparr>))) ''em''
   \<and> sanitize pf (new_Sanitizer (Some (empty_config
       \<lparr>removeElements := Some [''em''], disallowedElements := Some [''strong'']\<rparr>)))
       url_protocol (JString ''<strong>a</strong><em>b</em>'') = Inr ''<strong>a</strong>''
   \<and> disallowedElements (new_Sanitizer (Some (empty_config
       \<lparr>disallowedElements := Some [''strong'']\<rparr>))) = Some [''strong'']
   \<and> sanitize pf (new_Sanitizer (Some (empty_config\<lparr>disallowedElements := Some [''strong'']\<rparr>)))
       url_protocol (JString ''<strong>a</strong><em>b</em>'') = Inr ''<em>b</em>''"
  by code_simp

theorem legacy_blocklist_overwritten_witness:
  "\<forall>pf. sanitize pf (new_Sanitizer (Some (empty_config
       \<lparr>removeElements := Some [''em''], disallowedElements := Some [''strong'']\<rparr>)))
       url_protocol (JString ''<strong>a</strong><em>b</em>'') = Inr ''<strong>a</strong>''"
  using legacy_blocklist_overwritten by blast

section \<open>The two queries\<close>

text \<open>
  C5, as the specification states it, fails: the queries put the argument into lower case
  and compare it with the entries of the lists as they are written. With the block-list
  entry \<^verbatim>\<open>"SCRIPT"\<close> and the allow-list entry \<^verbatim>\<open>"script"\<close> the name is in both lists up
  to case, and \<^verbatim>\<open>isElementAllowed("script")\<close> is true; the same for the attribute
  \<^verbatim>\<open>onclick\<close>.
\<close>

theorem blocklist_case_counterexample:
  "isElementAllowed (new_Sanitizer (Some (empty_config
       \<lparr>allowedElements := Some [''script''], disallowedElements := Some [''SCRIPT'']\<rparr>))) ''script''
   \<and> isAttributeAllowed (new_Sanitizer (Some (empty_config
       \<lparr>allowedAttributes := Some [''onclick''], disallowedAttributes := Some [''OnClick'']\<rparr>)))
       ''onclick''"
  by code_simp

text \<open>
  C5, amended. For every policy and every name whose lower-case form is an entry of the
  block-list, \<^verbatim>\<open>isElementAllowed\<close> and \<^verbatim>\<open>isAttributeAllowed\<close> return false, whatever the
  allow-list holds. Both queries are case-insensitive in their argument: two arguments
  with the same lower-case form get the same answer. The entries of the lists are
  compared as they are written.
\<close>

theorem blocklist_precedence:
  "(disallowedElements P = Some d \<and> toLowerCase name \<in> set d \<longrightarrow> \<not> isElementAllowed P name)
   \<and> (disallowedAttributes P = Some d' \<and> toLowerCase name \<in> set d' \<longrightarrow> \<not> isAttributeAllowed P name)
   \<and> (toLowerCase n1 = toLowerCase n2 \<longrightarrow>
        isElementAllowed P n1 = isElementAllowed P n2
        \<and> isAttributeAllowed P n1 = isAttributeAllowed P n2)"
proof (intro conjI impI)
  assume "disallowedElements P = Some d \<and> toLowerCase name \<in> set d"
  then show "\<not> isElementAllowed P name"
    by (simp add: isElementAllowed_def)
next
  assume "disallowedAttributes P = Some d' \<and> toLowerCase name \<in> set d'"
  then show "\<not> isAttributeAllowed P name"
    by (simp add: isAttributeAllowed_def)
next
  assume "toLowerCase n1 = toLowerCase n2"
  then show "isElementAllowed P n1 = isElementAllowed P n2"
    by (simp add: isElementAllowed_def split: option.splits)
next
  assume "toLowerCase n1 = toLowerCase n2"
  then show "isAttributeAllowed P n1 = isAttributeAllowed P n2"
    by (simp add: isAttributeAllowed_def split: option.splits)
qed

theorem blocklist_precedence_witness:
  "\<not> isElementAllowed (empty_config
       \<lparr>allowedElements := Some [''script''], disallowedElements := Some [''script'']\<rparr>) ''SCRIPT''
   \<and> \<not> isAttributeAllowed (empty_config
       \<lparr>allowedAttributes := Some [''onclick''], disallowedAttributes := Some [''onclick'']\<rparr>)
       ''OnClick''
   \<and> isElementAllowed default_sanitizer ''DIV'' = isElementAllowed default_sanitizer ''div''"
proof -
  have e: "toLowerCase ''SCRIPT'' \<in> set [''script'']" by code_simp
  have a: "toLowerCase ''OnClick'' \<in> set [''onclick'']" by code_simp
  have q: "toLowerCase ''DIV'' = toLowerCase ''div''" by code_simp
  have de: "disallowedElements (empty_config
      \<lparr>allowedElements := Some [''script''], disallowedElements := Some [''script'']\<rparr>)
      = Some [''script'']"
    by simp
  have da: "disallowedAttributes (empty_config
      \<lparr>allowedAttributes := Some [''onclick''], disallowedAttributes := Some [''onclick'']\<rparr>)
      = Some [''onclick'']"
    by simp
  from e de blocklist_precedence [of "empty_config
      \<lparr>allowedElements := Some [''script''], disallowedElements := Some [''script'']\<rparr>"
      "[''script'']" "''SCRIPT''"]
  have 1: "\<not> isElementAllowed (empty_config
       \<lparr>allowedElements := Some [''script''], disallowedElements := Some [''script'']\<rparr>) ''SCRIPT''"
    by blast
  from a da blocklist_precedence [of "empty_config
      \<lparr>allowedAttributes := Some [''onclick''], disallowedAttributes := Some [''onclick'']\<rparr>"
      _ "''OnClick''" "[''onclick'']"]
  have 2: "\<not> isAttributeAllowed (empty_config
       \<lparr>allowedAttributes := Some [''onclick''], disallowedAttributes := Some [''onclick'']\<rparr>)
       ''OnClick''"
    by blast
  from q blocklist_precedence [of default_sanitizer _ _ _ "''DIV''" "''div''"]
  have 3: "isElementAllowed default_sanitizer ''DIV'' = isElementAllowed default_sanitizer ''div''"
    by blast
  from 1 2 3 show ?thesis by blast
qed

section \<open>Arguments that are not strings\<close>

text \<open>
  C7. \<^verbatim>\<open>sanitize\<close> returns the empty string for \<^verbatim>\<open>null\<close>, \<^verbatim>\<open>undefined\<close>, the empty
  string and every value that is not a string, and the \<^verbatim>\<open>setHTML\<close> family leaves the
  sink as it is for such a value. \<^verbatim>\<open>removeUnsafe\<close> does not: it has no guard, and for
  \<^verbatim>\<open>null\<close>, \<^verbatim>\<open>undefined\<close> or a number it raises a \<^verbatim>\<open>TypeError\<close> instead of returning
  an empty result.
\<close>

theorem removeUnsafe_raises_on_non_string:
  "removeUnsafe JNull = Inl TypeError
   \<and> removeUnsafe JUndefined = Inl TypeError
   \<and> removeUnsafe (JNumber 5) = Inl TypeError
   \<and> sanitize pf config parse JNull = Inr []
   \<and> sanitize pf config parse JUndefined = Inr []
   \<and> sanitize pf config parse (JString []) = Inr []
   \<and> sanitize pf config parse (JNumber 5) = Inr []
   \<and> setHTML (Some el) JNull options = Inr (Some el)
   \<and> setHTMLUnsafe pf parse (Some el) JUndefined options = Inr (Some el)
   \<and> shadow_setHTML this (JNumber 5) options = Inr this
   \<and> shadow_setHTMLUnsafe pf parse this JNull options = Inr this"
  by (simp add: removeUnsafe_def sanitize_def setHTML_def setHTMLUnsafe_def shadow_setHTML_def
      shadow_setHTMLUnsafe_def)

theorem removeUnsafe_raises_on_non_string_witness:
  "\<forall>pf. removeUnsafe JNull = Inl TypeError
   \<and> sanitize pf default_sanitizer url_protocol JNull = Inr []
   \<and> setHTML (Some \<lparr>innerHTML = ''old''\<rparr>) JNull None = Inr (Some \<lparr>innerHTML = ''old''\<rparr>)"
  using removeUnsafe_raises_on_non_string [of _ default_sanitizer url_protocol
      "\<lparr>innerHTML = ''old''\<rparr>" None]
  by simp

section \<open>The metadata of a sanitization\<close>

text \<open>
  C8. The sanitized text and \<^verbatim>\<open>wasModified\<close> are as claimed, the two lists are not. The
  condition \<^verbatim>\<open>regex.test(original) && !regex.test(sanitized)\<close> uses one pattern object
  with the \<^verbatim>\<open>g\<close> flag, so the second search starts where the first match ended. For the
  text \<^verbatim>\<open><scripts>\<close> and the default policy nothing is removed and the pattern for
  \<^verbatim>\<open>script\<close> still matches the output, yet \<^verbatim>\<open>script\<close> is reported as removed.
\<close>

theorem metadata_reports_element_not_removed:
  "processHTMLWithMetadata pf default_sanitizer url_protocol ''<scripts>'' =
     Inr \<lparr> sanitizedHTML = ''<scripts>'', wasModified = False,
           removedElements = [''script''], removedAttributes = [] \<rparr>
   \<and> regex_test True (removedElementRegex ''script'') ''<scripts>'' 0 = (True, 9)
   \<and> regex_test True (removedElementRegex ''script'') ''<scripts>'' 9 = (False, 0)"
  by code_simp

section \<open>The check of the structure\<close>

text \<open>Both loops of the check end, for every text.\<close>

lemma exec_at_nonempty:
  assumes "Lit (c # l) \<in> set re" and "exec_at ic re prv s = Some (m, rest, caps)"
  shows "m \<noteq> []"
  using exec_at_lit [OF assms(2) assms(1)] by auto

lemma exec_loop_total:
  "Lit (c # l) \<in> set re \<Longrightarrow> \<exists>found. exec_loop ic re prv s = Some found"
proof (induction ic re prv s rule: exec_loop.induct)
  case (1 ic re prv s)
  show ?case
  proof (cases "exec_at ic re prv s")
    case None
    show ?thesis
    proof (cases s)
      case Nil
      with None show ?thesis by (subst exec_loop.simps) simp
    next
      case (Cons a cs)
      from "1.IH"(1) [OF None Cons "1.prems"] obtain found where
        "exec_loop ic re (Some a) cs = Some found" by blast
      with None Cons show ?thesis by (subst exec_loop.simps) simp
    qed
  next
    case (Some x)
    obtain m rest caps where x: "x = (m, rest, caps)" by (cases x) auto
    with Some have e: "exec_at ic re prv s = Some (m, rest, caps)" by simp
    from exec_at_nonempty [OF "1.prems" e] have m: "m \<noteq> []" .
    from "1.IH"(2) [OF Some _ _ m "1.prems"] x obtain found where
      "exec_loop ic re (Some (last m)) rest = Some found" by blast
    with e m show ?thesis by (subst exec_loop.simps) simp
  qed
qed

lemma validateHTMLStructure_total: "\<exists>r. validateHTMLStructure html = Some r"
proof -
  from exec_loop_total [of "CHR ''<''" "[]" tagRegex False None html]
  obtain opened where o: "exec_loop False tagRegex None html = Some opened"
    by (auto simp: tagRegex_def)
  from exec_loop_total [of "CHR ''<''" "''/''" closingTagRegex False None html]
  obtain closed where c: "exec_loop False closingTagRegex None html = Some closed"
    by (auto simp: closingTagRegex_def)
  from o c show ?thesis by (simp add: validateHTMLStructure_def)
qed

lemma validateHTMLStructure_isValid:
  "validateHTMLStructure html = Some r \<Longrightarrow> isValid r = (errors r = [])"
  by (auto simp: validateHTMLStructure_def check_tags_def Let_def split: option.splits prod.splits)

text \<open>
  C9. The check is meant to be a tag stack, but it pushes every opening tag of the text on
  the stack before it looks at the first closing tag, so the order of opening and closing
  tags is lost. In \<^verbatim>\<open></p><p>\<close> the closing tag has no opening tag and the opening tag is
  left open, yet the result is valid, with no error and no warning. In \<^verbatim>\<open></b><i>\<close> the
  tag \<^verbatim>\<open>i\<close> is left open and there is no warning. The well-formed text
  \<^verbatim>\<open><b></b><i></i>\<close> gets two errors for mismatched tags. The two examples of the
  specification come out as stated, and \<^verbatim>\<open>isValid\<close> is true exactly when there is no
  error.
\<close>

theorem validateHTMLStructure_loses_order:
  "validateHTMLStructure ''</p><p>'' = Some \<lparr>isValid = True, errors = [], warnings = []\<rparr>
   \<and> validateHTMLStructure ''</b><i>''
       = Some \<lparr>isValid = False, errors = [mismatched_tags ''i'' ''b''], warnings = []\<rparr>
   \<and> validateHTMLStructure ''<b></b><i></i>''
       = Some \<lparr>isValid = False,
                errors = [mismatched_tags ''i'' ''b'', mismatched_tags ''b'' ''i''],
                warnings = []\<rparr>
   \<and> validateHTMLStructure ''<p>Hello</p>'' = Some \<lparr>isValid = True, errors = [], warnings = []\<rparr>
   \<and> validateHTMLStructure ''<p>Hello</div>''
       = Some \<lparr>isValid = False, errors = [mismatched_tags ''p'' ''div''], warnings = []\<rparr>"
  by code_simp

section \<open>The URL pass\<close>



lemma url_pass_examples:
  \<open>sanitize pf default_sanitizer url_protocol (JString ''<a href="javascript:alert(1)">Link</a>'')
     = Inr ''<a href="#">Link</a>''\<close>
  \<open>sanitize pf default_sanitizer url_protocol (JString ''<a href="https://example.com">Safe</a>'')
     = Inr ''<a href="https://example.com">Safe</a>''\<close>
  \<open>sanitize pf default_sanitizer url_protocol (JString ''<img src="/logo.png">'')
     = Inr ''<img src="#">''\<close>
  by code_simp+


section \<open>Idempotence\<close>

lemma idempotence_examples:
  "sanitize pf default_sanitizer url_protocol (JString ''<b><b></b></b>'') = Inr ''<b></b>''"
  "sanitize pf default_sanitizer url_protocol (JString ''<b></b>'') = Inr []"
  "removeUnsafe (JString ''<scr<script>ipt>'') = Inr ''<script>''"
  "removeUnsafe (JString ''<script>'') = Inr []"
  by code_simp+

text \<open>
  C6, as the specification states it, fails for both functions. Under the default policy
  \<^verbatim>\<open>sanitize\<close> turns \<^verbatim>\<open><b><b></b></b>\<close> into \<^verbatim>\<open><b></b>\<close>, and that into the empty
  string: the cleanup of empty tags runs once, and the pair around a removed pair is
  empty only afterwards. \<^verbatim>\<open>removeUnsafe\<close> turns \<^verbatim>\<open><scr<script>ipt>\<close> into
  \<^verbatim>\<open><script>\<close>, and that into the empty string.
\<close>

theorem idempotence_counterexample:
  "\<forall>pf. sanitize pf default_sanitizer url_protocol (JString ''<b><b></b></b>'') = Inr ''<b></b>''
     \<and> sanitize pf default_sanitizer url_protocol (JString ''<b></b>'') = Inr []
     \<and> removeUnsafe (JString ''<scr<script>ipt>'') = Inr ''<script>''
     \<and> removeUnsafe (JString ''<script>'') = Inr []"
  by (simp add: idempotence_examples)

text \<open>
  C6, amended. Take a policy whose blocked element and attribute names hold no syntax
  character of the pattern language. For every text, \<^verbatim>\<open>sanitize\<close> returns a result, and a
  second \<^verbatim>\<open>sanitize\<close> returns the same result exactly when the first result holds no match
  of a pattern that \<^verbatim>\<open>sanitize\<close> removes under the policy (the doctype, a comment, a blocked
  element, a blocked attribute, an empty pair of tags) and the check of the URLs leaves it
  as it is. \<^verbatim>\<open>removeUnsafe\<close> of the result of \<^verbatim>\<open>removeUnsafe\<close> is the same result exactly
  when that result holds no match of a pattern of \<^verbatim>\<open>removeUnsafe\<close>. One pass can put such a
  match together, as in the two examples above; then the second pass changes the text.
\<close>

theorem idempotent_iff_no_match:
  assumes "plain_names P"
  shows "(\<exists>y. sanitize pf P parse (JString html) = Inr y
            \<and> ((sanitize pf P parse (JString y) = Inr y)
                 = (\<not> holds_removable P y \<and> sanitizeUrls P parse y = y)))
       \<and> (\<exists>z. removeUnsafe (JString html) = Inr z
            \<and> ((removeUnsafe (JString z) = Inr z) = (\<not> holds_unsafe z)))"
proof
  let ?y = "trim (cleanupEmptyTags (sanitizeUrls P parse (removal_passes P html)))"
  from sanitize_plain [OF assms] have 1: "sanitize pf P parse (JString html) = Inr ?y" .
  have "trim ?y = ?y" by (rule trim_idem)
  with sanitize_fixed_iff [OF assms, of pf parse ?y]
  have "(sanitize pf P parse (JString ?y) = Inr ?y)
      = (\<not> holds_removable P ?y \<and> sanitizeUrls P parse ?y = ?y)" by simp
  with 1 show "\<exists>y. sanitize pf P parse (JString html) = Inr y
      \<and> ((sanitize pf P parse (JString y) = Inr y)
           = (\<not> holds_removable P y \<and> sanitizeUrls P parse y = y))" by blast
next
  let ?z = "removeUnsafe_string html"
  have "\<exists>t. ?z = trim t" unfolding removeUnsafe_string_def Let_def by blast
  then have "trim ?z = ?z" by (auto simp: trim_idem)
  with removeUnsafe_string_fixed_iff [of ?z]
  have "(removeUnsafe (JString ?z) = Inr ?z) = (\<not> holds_unsafe ?z)" by (simp add: removeUnsafe_def)
  moreover have "removeUnsafe (JString html) = Inr ?z" by (simp add: removeUnsafe_def)
  ultimately show "\<exists>z. removeUnsafe (JString html) = Inr z
      \<and> ((removeUnsafe (JString z) = Inr z) = (\<not> holds_unsafe z))" by blast
qed

lemma idempotent_examples:
  "plain_names default_sanitizer"
  "sanitize pf default_sanitizer url_protocol
     (JString ''<p>Hello</p><script>alert(1)</script><p>World</p>'') = Inr ''<p>Hello</p><p>World</p>''"
  "\<not> holds_removable default_sanitizer ''<p>Hello</p><p>World</p>''"
  "sanitizeUrls default_sanitizer url_protocol ''<p>Hello</p><p>World</p>'' = ''<p>Hello</p><p>World</p>''"
  "holds_removable default_sanitizer ''<b></b>''"
  "removeUnsafe (JString ''<p>Hello</p><script>alert(1)</script><p>World</p>'')
     = Inr ''<p>Hello</p><p>World</p>''"
  "\<not> holds_unsafe ''<p>Hello</p><p>World</p>''"
  "holds_unsafe ''<script>''"
  by code_simp+

theorem idempotent_iff_no_match_witness:
  "\<forall>pf. plain_names default_sanitizer
     \<and> sanitize pf default_sanitizer url_protocol (JString ''<p>Hello</p><p>World</p>'')
         = Inr ''<p>Hello</p><p>World</p>''
     \<and> sanitize pf default_sanitizer url_protocol (JString ''<b></b>'') \<noteq> Inr ''<b></b>''
     \<and> removeUnsafe (JString ''<p>Hello</p><p>World</p>'') = Inr ''<p>Hello</p><p>World</p>''
     \<and> removeUnsafe (JString ''<script>'') \<noteq> Inr ''<script>''"
proof
  fix pf
  from idempotent_iff_no_match [OF idempotent_examples(1), of pf url_protocol
      "''<p>Hello</p><script>alert(1)</script><p>World</p>''"]
    idempotent_examples(2) [of pf] idempotent_examples(3,4,6,7)
  have 1: "sanitize pf default_sanitizer url_protocol (JString ''<p>Hello</p><p>World</p>'')
         = Inr ''<p>Hello</p><p>World</p>''"
    and 2: "removeUnsafe (JString ''<p>Hello</p><p>World</p>'') = Inr ''<p>Hello</p><p>World</p>''"
    by auto
  from idempotent_iff_no_match [OF idempotent_examples(1), of pf url_protocol "''<b><b></b></b>''"]
    idempotence_examples(1) [of pf] idempotent_examples(5)
  have 3: "sanitize pf default_sanitizer url_protocol (JString ''<b></b>'') \<noteq> Inr ''<b></b>''"
    by auto
  from idempotent_iff_no_match [OF idempotent_examples(1), of pf url_protocol "''<scr<script>ipt>''"]
    idempotence_examples(3) idempotent_examples(8)
  have 4: "removeUnsafe (JString ''<script>'') \<noteq> Inr ''<script>''"
    by auto
  from 1 2 3 4 idempotent_examples(1)
  show "plain_names default_sanitizer
     \<and> sanitize pf default_sanitizer url_protocol (JString ''<p>Hello</p><p>World</p>'')
         = Inr ''<p>Hello</p><p>World</p>''
     \<and> sanitize pf default_sanitizer url_protocol (JString ''<b></b>'') \<noteq> Inr ''<b></b>''
     \<and> removeUnsafe (JString ''<p>Hello</p><p>World</p>'') = Inr ''<p>Hello</p><p>World</p>''
     \<and> removeUnsafe (JString ''<script>'') \<noteq> Inr ''<script>''"
    by blast
qed

section \<open>The safety floor\<close>

lemma safety_floor_examples:
  \<open>sanitize pf default_sanitizer url_protocol (JString ''<p onkeydown="x">a</p>'')
     = Inr ''<p onkeydown="x">a</p>''\<close>
  \<open>removeUnsafe (JString ''<p onkeydown="x">a</p>'') = Inr ''<p>a</p>''\<close>
  \<open>sanitize pf default_sanitizer url_protocol (JString ''<scr<scr<script>ipt>ipt>'')
     = Inr ''<scr<script>ipt>''\<close>
  \<open>removeUnsafe (JString ''<scr<script>ipt>'') = Inr ''<script>''\<close>
  by code_simp+

text \<open>
  C1, as the specification states it, fails. The blocked attributes of the default policy
  do not hold \<^verbatim>\<open>onkeydown\<close> and \<^verbatim>\<open>onkeyup\<close>: \<^verbatim>\<open>sanitize\<close> leaves an \<^verbatim>\<open>onkeydown\<close>
  attribute where it is, and \<^verbatim>\<open>removeUnsafe\<close> removes it from the output. For the elements
  the blocked list is a superset, but one pass over the text does not remove what the
  pass itself puts together: \<^verbatim>\<open>sanitize\<close> leaves a \<^verbatim>\<open><script>\<close> tag in its output for
  \<^verbatim>\<open><scr<scr<script>ipt>ipt>\<close>, and \<^verbatim>\<open>removeUnsafe\<close> changes that output.
\<close>

theorem safety_floor_counterexample:
  \<open>\<forall>pf. sanitize pf default_sanitizer url_protocol (JString ''<p onkeydown="x">a</p>'')
       = Inr ''<p onkeydown="x">a</p>''
     \<and> removeUnsafe (JString ''<p onkeydown="x">a</p>'') = Inr ''<p>a</p>''
     \<and> sanitize pf default_sanitizer url_protocol (JString ''<scr<scr<script>ipt>ipt>'')
       = Inr ''<scr<script>ipt>''
     \<and> removeUnsafe (JString ''<scr<script>ipt>'') = Inr ''<script>''\<close>
  by (simp add: safety_floor_examples)

text \<open>
  C1, amended. Take a text that \<^verbatim>\<open>sanitize\<close> under the default policy returns as it is:
  such is every output of \<^verbatim>\<open>sanitize\<close> on which a second \<^verbatim>\<open>sanitize\<close> changes nothing. The
  text holds no match of the patterns of \<^verbatim>\<open>removeUnsafe\<close> for its five unsafe elements and
  for the nine attributes \<^verbatim>\<open>onclick\<close> to \<^verbatim>\<open>onsubmit\<close>, because the default policy blocks
  all of them; so the removal of these by \<^verbatim>\<open>removeUnsafe\<close> leaves the text as it is.
  \<^verbatim>\<open>removeUnsafe\<close> as a whole returns the text as it is exactly when the text holds no
  \<^verbatim>\<open>onkeydown\<close> or \<^verbatim>\<open>onkeyup\<close> attribute either, which the default policy does not block,
  and no \<^verbatim>\<open>javascript:\<close> or \<^verbatim>\<open>data:\<close> URL in the form that \<^verbatim>\<open>removeUnsafe\<close> replaces.
\<close>

theorem default_fixed_point_floor:
  assumes "sanitize pf default_sanitizer parse (JString y) = Inr y"
  shows "(\<forall>tag \<in> set unsafeElements.
            \<not> matches True (elementRegex tag) y \<and> \<not> matches True (selfClosingRegex tag) y)
    \<and> (\<forall>attr \<in> set [''onclick'', ''onload'', ''onerror'', ''onmouseover'', ''onmouseout'',
                      ''onfocus'', ''onblur'', ''onchange'', ''onsubmit''].
            \<not> matches True (singleQuoteRegex attr) y \<and> \<not> matches True (doubleQuoteRegex attr) y)
    \<and> foldl remove_element y unsafeElements = y
    \<and> foldl remove_attribute y [''onclick'', ''onload'', ''onerror'', ''onmouseover'',
          ''onmouseout'', ''onfocus'', ''onblur'', ''onchange'', ''onsubmit''] = y
    \<and> ((removeUnsafe (JString y) = Inr y)
         = ((\<forall>attr \<in> set [''onkeydown'', ''onkeyup''].
               \<not> matches True (singleQuoteRegex attr) y \<and> \<not> matches True (doubleQuoteRegex attr) y)
            \<and> \<not> matches True (dangerousUrlRegex ''javascript:'') y
            \<and> \<not> matches True (dangerousUrlRegex ''data:'') y))"
proof -
  let ?nine = "[''onclick'', ''onload'', ''onerror'', ''onmouseover'', ''onmouseout'',
    ''onfocus'', ''onblur'', ''onchange'', ''onsubmit'']"
  have pn: "plain_names default_sanitizer" by code_simp
  from assms sanitize_fixed_iff [OF pn, of pf parse y]
  have nr: "\<not> holds_removable default_sanitizer y" and t: "trim y = y" by simp_all
  then have nb: "\<not> holds_blocked default_sanitizer y" by (simp add: holds_removable_def)
  have de: "disallowedElements default_sanitizer = Some (unsafeElements @ [''form'', ''input'',
      ''textarea'', ''button'', ''select'', ''option''])"
    by (simp add: default_sanitizer_eq DEFAULT_SANITIZER_CONFIG_def unsafeElements_def)
  have da: "disallowedAttributes default_sanitizer = Some ?nine"
    by (simp add: default_sanitizer_eq DEFAULT_SANITIZER_CONFIG_def)
  from nb have el: "\<forall>tag \<in> set unsafeElements.
      \<not> matches True (elementRegex tag) y \<and> \<not> matches True (selfClosingRegex tag) y"
    unfolding holds_blocked_def de list_ex_iff by auto
  from nb have at: "\<forall>attr \<in> set ?nine.
      \<not> matches True (singleQuoteRegex attr) y \<and> \<not> matches True (doubleQuoteRegex attr) y"
    unfolding holds_blocked_def da list_ex_iff by auto
  from el have fe: "foldl remove_element y unsafeElements = y"
    by (intro foldl_fixed) (simp add: remove_element_fixed)
  from at have "\<forall>attr \<in> set ?nine. remove_attribute y attr = y"
    unfolding remove_attribute_fixed .
  then have fa: "foldl remove_attribute y ?nine = y" by (rule foldl_fixed)
  have ua: "unsafeAttributes = ?nine @ [''onkeydown'', ''onkeyup'']"
    by (simp add: unsafeAttributes_def)
  have "(removeUnsafe (JString y) = Inr y) = (\<not> holds_unsafe y)"
    using removeUnsafe_string_fixed_iff [of y] t by (simp add: removeUnsafe_def)
  also have "\<dots> = ((\<forall>attr \<in> set [''onkeydown'', ''onkeyup''].
               \<not> matches True (singleQuoteRegex attr) y \<and> \<not> matches True (doubleQuoteRegex attr) y)
            \<and> \<not> matches True (dangerousUrlRegex ''javascript:'') y
            \<and> \<not> matches True (dangerousUrlRegex ''data:'') y)"
    using el at unfolding holds_unsafe_def ua list_ex_iff set_append by blast
  finally show ?thesis using el at fe fa by blast
qed

lemma floor_examples:
  "sanitize pf default_sanitizer url_protocol (JString ''<p>Hello</p><p>World</p>'')
     = Inr ''<p>Hello</p><p>World</p>''"
  "\<forall>attr \<in> set [''onkeydown'', ''onkeyup''].
     \<not> matches True (singleQuoteRegex attr) ''<p>Hello</p><p>World</p>''
     \<and> \<not> matches True (doubleQuoteRegex attr) ''<p>Hello</p><p>World</p>''"
  "\<not> matches True (dangerousUrlRegex ''javascript:'') ''<p>Hello</p><p>World</p>''"
  "\<not> matches True (dangerousUrlRegex ''data:'') ''<p>Hello</p><p>World</p>''"
  \<open>matches True (doubleQuoteRegex ''onkeydown'') ''<p onkeydown="x">a</p>''\<close>
  by code_simp+

theorem default_fixed_point_floor_witness:
  \<open>\<forall>pf. sanitize pf default_sanitizer url_protocol (JString ''<p>Hello</p><p>World</p>'')
       = Inr ''<p>Hello</p><p>World</p>''
     \<and> foldl remove_element ''<p>Hello</p><p>World</p>'' unsafeElements = ''<p>Hello</p><p>World</p>''
     \<and> removeUnsafe (JString ''<p>Hello</p><p>World</p>'') = Inr ''<p>Hello</p><p>World</p>''
     \<and> sanitize pf default_sanitizer url_protocol (JString ''<p onkeydown="x">a</p>'')
       = Inr ''<p onkeydown="x">a</p>''
     \<and> foldl remove_element ''<p onkeydown="x">a</p>'' unsafeElements = ''<p onkeydown="x">a</p>''
     \<and> removeUnsafe (JString ''<p onkeydown="x">a</p>'') \<noteq> Inr ''<p onkeydown="x">a</p>''\<close>
proof
  fix pf
  from default_fixed_point_floor [OF floor_examples(1) [of pf]] floor_examples(2,3,4)
  have 1: "foldl remove_element ''<p>Hello</p><p>World</p>'' unsafeElements = ''<p>Hello</p><p>World</p>''"
    and 2: "removeUnsafe (JString ''<p>Hello</p><p>World</p>'') = Inr ''<p>Hello</p><p>World</p>''"
    by blast+
  from default_fixed_point_floor [OF safety_floor_examples(1) [of pf]] floor_examples(5)
  have 3: \<open>foldl remove_element ''<p onkeydown="x">a</p>'' unsafeElements = ''<p onkeydown="x">a</p>''\<close>
    and 4: \<open>removeUnsafe (JString ''<p onkeydown="x">a</p>'') \<noteq> Inr ''<p onkeydown="x">a</p>''\<close>
    by auto
  from 1 2 3 4 floor_examples(1) [of pf] safety_floor_examples(1) [of pf]
  show \<open>sanitize pf default_sanitizer url_protocol (JString ''<p>Hello</p><p>World</p>'')
       = Inr ''<p>Hello</p><p>World</p>''
     \<and> foldl remove_element ''<p>Hello</p><p>World</p>'' unsafeElements = ''<p>Hello</p><p>World</p>''
     \<and> removeUnsafe (JString ''<p>Hello</p><p>World</p>'') = Inr ''<p>Hello</p><p>World</p>''
     \<and> sanitize pf default_sanitizer url_protocol (JString ''<p onkeydown="x">a</p>'')
       = Inr ''<p onkeydown="x">a</p>''
     \<and> foldl remove_element ''<p onkeydown="x">a</p>'' unsafeElements = ''<p onkeydown="x">a</p>''
     \<and> removeUnsafe (JString ''<p onkeydown="x">a</p>'') \<noteq> Inr ''<p onkeydown="x">a</p>''\<close>
    by blast
qed

end
